theory Spec2Isabelle
  imports Complex_Main
begin

section \<open>TicTacToe/tictactoe.py\<close>

text \<open>
  The enumerations \<open>BoardCell\<close>, \<open>PlayerType\<close> and \<open>Winner\<close> of the 3x3 game. The
  module of the 8x8 game declares enumerations of the same names, so the constants of
  this module carry the prefix \<open>t\<close>.
\<close>

datatype tBoardCell = tEMPTY | tX | tO

datatype tPlayerType = PlayerX | PlayerO

datatype tWinner = WinnerX | WinnerO | tDRAW

text \<open>The \<open>.value\<close> of each enumeration constant.\<close>

fun tBoardCell_value :: "tBoardCell \<Rightarrow> int" where
  "tBoardCell_value tEMPTY = 0"
| "tBoardCell_value tX = 1"
| "tBoardCell_value tO = 2"

fun tPlayerType_value :: "tPlayerType \<Rightarrow> int" where
  "tPlayerType_value PlayerX = 1"
| "tPlayerType_value PlayerO = 2"

text \<open>
  Looking an enumeration constant up by value, \<open>BoardCell(v)\<close> and \<open>Winner(v)\<close>: a value
  that no constant has raises \<open>ValueError\<close>, here \<open>None\<close>.
\<close>

definition tBoardCell_of :: "int \<Rightarrow> tBoardCell option" where
  "tBoardCell_of v =
     (if v = 0 then Some tEMPTY else if v = 1 then Some tX else if v = 2 then Some tO
      else None)"

definition tWinner_of :: "int \<Rightarrow> tWinner option" where
  "tWinner_of v =
     (if v = 1 then Some WinnerX else if v = 2 then Some WinnerO else if v = 3 then Some tDRAW
      else None)"

definition tPlayerType_of :: "int \<Rightarrow> tPlayerType option" where
  "tPlayerType_of v = (if v = 1 then Some PlayerX else if v = 2 then Some PlayerO else None)"

text \<open>\<open>PlayerType.inverse\<close>: \<open>PlayerType(3 - self.value)\<close>.\<close>

definition tPlayerType_inverse :: "tPlayerType \<Rightarrow> tPlayerType option" where
  "tPlayerType_inverse p = tPlayerType_of (3 - tPlayerType_value p)"

text \<open>
  A \<open>GameBoard\<close> holds \<open>size\<close>, set to 3 by the constructor and never assigned again,
  and \<open>board\<close>, a list of rows. \<open>Move\<close> is a named tuple of a row and a column.
\<close>

type_synonym tboard = "tBoardCell list list"

definition tsize :: int where
  "tsize = 3"

definition tGameBoard :: tboard where
  "tGameBoard = replicate (nat tsize) (replicate (nat tsize) tEMPTY)"

datatype Move = Move (row: int) (column: int)

text \<open>
  Exceptions. Each module declares its own \<open>IncorrectMove\<close>, always raised with a
  message: \<open>reason\<close> lists the messages of the three modules, and \<open>MoveFailed e\<close> is
  the message built from a caught exception \<open>e\<close>. \<open>AgentError\<close> stands for whatever an
  agent's own code raises. A method that changes the board returns the board as the call
  left it, together with \<open>None\<close> or with the exception that left the call.
\<close>

datatype exn = IncorrectMove reason | ValueError | TypeError | OverflowError | AgentError
and reason =
    BadCoordinates | CellNotEmpty | NothingFlipped | NotAMove
  | BadValue | NotAnInt | MoveFailed exn

text \<open>Reading and writing \<open>board[r][c]\<close> at coordinates already checked to be in range.\<close>

definition cell_at :: "'c list list \<Rightarrow> int \<Rightarrow> int \<Rightarrow> 'c" where
  "cell_at b r c = b ! nat r ! nat c"

definition set_cell :: "'c list list \<Rightarrow> int \<Rightarrow> int \<Rightarrow> 'c \<Rightarrow> 'c list list" where
  "set_cell b r c v = b[nat r := (b ! nat r)[nat c := v]]"

text \<open>\<open>GameBoard.apply_move\<close> of the 3x3 game.\<close>

definition t_apply_move :: "tboard \<Rightarrow> tPlayerType \<Rightarrow> Move \<Rightarrow> tboard \<times> exn option" where
  "t_apply_move b player_type move =
     (if row move < 0 \<or> row move \<ge> tsize \<or> column move < 0 \<or> column move \<ge> tsize
      then (b, Some (IncorrectMove BadCoordinates))
      else if cell_at b (row move) (column move) \<noteq> tEMPTY
      then (b, Some (IncorrectMove CellNotEmpty))
      else
        (case tBoardCell_of (tPlayerType_value player_type) of
           None \<Rightarrow> (b, Some ValueError)
         | Some new_cell \<Rightarrow> (set_cell b (row move) (column move) new_cell, None)))"

text \<open>\<open>GameBoard.is_full\<close>: the two nested loops return at the first empty cell.\<close>

definition t_is_full :: "tboard \<Rightarrow> bool" where
  "t_is_full b =
     list_all (\<lambda>r. list_all (\<lambda>c. cell_at b (int r) (int c) \<noteq> tEMPTY) [0..<nat tsize])
       [0..<nat tsize]"

text \<open>
  \<open>GameBoard._is_cells_full_by_player\<close> returns \<open>False\<close> or a \<open>Winner\<close>, here an option.
  \<open>list(set(cells))\<close> holds each distinct cell once.
\<close>

definition t_is_cells_full_by_player :: "tBoardCell list \<Rightarrow> tWinner option" where
  "t_is_cells_full_by_player cells =
     (let elements = remdups cells in
      if length elements \<noteq> 1 then None
      else if hd elements \<noteq> tEMPTY then tWinner_of (tBoardCell_value (hd elements))
      else None)"

definition t_get_column :: "tboard \<Rightarrow> nat \<Rightarrow> tBoardCell list" where
  "t_get_column b column_id = map (\<lambda>r. r ! column_id) b"

text \<open>
  The loops of \<open>GameBoard.get_winner\<close> over the rows and over the columns: the first line
  with a winner ends the search.
\<close>

fun first_winner :: "tBoardCell list list \<Rightarrow> tWinner option" where
  "first_winner [] = None"
| "first_winner (cells # rest) =
     (case t_is_cells_full_by_player cells of
        Some w \<Rightarrow> Some w
      | None \<Rightarrow> first_winner rest)"

text \<open>\<open>GameBoard.get_winner\<close>: \<open>None\<close> is the \<open>False\<close> of the source.\<close>

definition t_get_winner :: "tboard \<Rightarrow> tWinner option" where
  "t_get_winner b =
     (if t_is_full b then Some tDRAW
      else first_winner
        (map (\<lambda>r. b ! r) [0..<nat tsize]
         @ map (t_get_column b) [0..<nat tsize]
         @ [[cell_at b 0 0, cell_at b 1 1, cell_at b 2 2],
            [cell_at b 0 2, cell_at b 1 1, cell_at b 2 0]]))"

section \<open>Reversi/reversi.py\<close>

datatype BoardCell = EMPTY | BLACK | WHITE

datatype PlayerType = PlayerBLACK | PlayerWHITE

datatype Winner = WinnerBLACK | WinnerWHITE | DRAW

fun BoardCell_value :: "BoardCell \<Rightarrow> int" where
  "BoardCell_value EMPTY = 0"
| "BoardCell_value BLACK = 1"
| "BoardCell_value WHITE = 2"

fun PlayerType_value :: "PlayerType \<Rightarrow> int" where
  "PlayerType_value PlayerBLACK = 1"
| "PlayerType_value PlayerWHITE = 2"

definition BoardCell_of :: "int \<Rightarrow> BoardCell option" where
  "BoardCell_of v =
     (if v = 0 then Some EMPTY else if v = 1 then Some BLACK else if v = 2 then Some WHITE
      else None)"

definition PlayerType_of :: "int \<Rightarrow> PlayerType option" where
  "PlayerType_of v =
     (if v = 1 then Some PlayerBLACK else if v = 2 then Some PlayerWHITE else None)"

definition Winner_of :: "int \<Rightarrow> Winner option" where
  "Winner_of v =
     (if v = 1 then Some WinnerBLACK else if v = 2 then Some WinnerWHITE
      else if v = 3 then Some DRAW else None)"

text \<open>
  \<open>BoardCell.inverse\<close> and \<open>PlayerType.inverse\<close>: the constant of value \<open>3 - self.value\<close>.
  No cell has the value 3, so the inverse of an empty cell raises \<open>ValueError\<close> (\<open>None\<close>).
\<close>

definition BoardCell_inverse :: "BoardCell \<Rightarrow> BoardCell option" where
  "BoardCell_inverse c = BoardCell_of (3 - BoardCell_value c)"

definition PlayerType_inverse :: "PlayerType \<Rightarrow> PlayerType option" where
  "PlayerType_inverse p = PlayerType_of (3 - PlayerType_value p)"

type_synonym rboard = "BoardCell list list"

definition rsize :: int where
  "rsize = 8"

text \<open>The constructor: an empty 8x8 board with the four stones of the opening.\<close>

definition GameBoard :: rboard where
  "GameBoard =
     (let b0 = replicate (nat rsize) (replicate (nat rsize) EMPTY);
          b1 = set_cell (set_cell b0 3 4 BLACK) 4 3 BLACK
      in set_cell (set_cell b1 3 3 WHITE) 4 4 WHITE)"

definition is_valid_coordinates :: "int \<Rightarrow> int \<Rightarrow> bool" where
  "is_valid_coordinates r c = (0 \<le> r \<and> r < rsize \<and> 0 \<le> c \<and> c < rsize)"

definition directions :: "(int \<times> int) list" where
  "directions = [(0, 1), (0, -1), (1, 0), (-1, 0), (1, 1), (1, -1), (-1, 1), (-1, -1)]"

text \<open>
  The \<open>while\<close> loop of \<open>_get_flipped_cells_for_move\<close>, which runs inside the \<open>for\<close> loop
  over the eight directions of the literal list and so only ever for one of them (the
  first conjunct of the test). The result is what the loop adds to \<open>flipped_cells\<close>: the
  cells gathered in \<open>flipped_in_direction\<close> when it breaks at a cell equal to
  \<open>board_cell\<close>, nothing when it walks off the board.
\<close>

function walk :: "rboard \<Rightarrow> BoardCell \<Rightarrow> int \<times> int \<Rightarrow> int \<Rightarrow> int \<Rightarrow> (int \<times> int) list
    \<Rightarrow> (int \<times> int) list" where
  "walk b board_cell d x y flipped_in_direction =
     (if d \<in> set directions \<and> is_valid_coordinates x y
      then if cell_at b x y = board_cell then flipped_in_direction
           else walk b board_cell d (x + fst d) (y + snd d) (flipped_in_direction @ [(x, y)])
      else [])"
  by pat_completeness auto
termination
proof (relation "measure (\<lambda>(b, board_cell, d, x, y, fl).
    (if fst d = 1 then nat (rsize - x) else if fst d = -1 then nat (x + 1) else 0)
    + (if snd d = 1 then nat (rsize - y) else if snd d = -1 then nat (y + 1) else 0))")
  show "wf (measure (\<lambda>(b, board_cell, d, x, y, fl).
    (if fst d = 1 then nat (rsize - x) else if fst d = -1 then nat (x + 1) else 0)
    + (if snd d = 1 then nat (rsize - y) else if snd d = -1 then nat (y + 1) else 0)))"
    by simp
next
  fix b :: rboard and board_cell :: BoardCell and d :: "int \<times> int" and x y :: int
    and flipped_in_direction :: "(int \<times> int) list"
  assume "d \<in> set directions \<and> is_valid_coordinates x y"
  then show "((b, board_cell, d, x + fst d, y + snd d, flipped_in_direction @ [(x, y)]),
              (b, board_cell, d, x, y, flipped_in_direction))
      \<in> measure (\<lambda>(b, board_cell, d, x, y, fl).
    (if fst d = 1 then nat (rsize - x) else if fst d = -1 then nat (x + 1) else 0)
    + (if snd d = 1 then nat (rsize - y) else if snd d = -1 then nat (y + 1) else 0))"
    by (auto simp: directions_def is_valid_coordinates_def rsize_def)
qed

declare walk.simps [simp del]

text \<open>The body of the \<open>for\<close> loop: what one direction adds to \<open>flipped_cells\<close>.\<close>

definition flipped_towards :: "rboard \<Rightarrow> int \<Rightarrow> int \<Rightarrow> BoardCell \<Rightarrow> int \<times> int
    \<Rightarrow> (int \<times> int) list" where
  "flipped_towards b r c board_cell d =
     (let x = r + fst d; y = c + snd d in
      if \<not> is_valid_coordinates x y \<or> cell_at b x y = EMPTY \<or> cell_at b x y = board_cell
      then []
      else walk b board_cell d x y [])"

definition get_flipped_cells_for_move :: "rboard \<Rightarrow> int \<Rightarrow> int \<Rightarrow> BoardCell
    \<Rightarrow> (int \<times> int) list" where
  "get_flipped_cells_for_move b r c board_cell =
     concat (map (flipped_towards b r c board_cell) directions)"

definition is_valid_move :: "rboard \<Rightarrow> int \<Rightarrow> int \<Rightarrow> BoardCell \<Rightarrow> bool" where
  "is_valid_move b r c board_cell = (length (get_flipped_cells_for_move b r c board_cell) > 0)"

text \<open>
  The last loop of \<open>apply_move\<close>: each cell of the list is replaced by its inverse, in
  order; the inverse of an empty cell raises, and the cells before it stay turned.
\<close>

fun flip_cells :: "rboard \<Rightarrow> (int \<times> int) list \<Rightarrow> rboard \<times> exn option" where
  "flip_cells b [] = (b, None)"
| "flip_cells b ((flipped_x, flipped_y) # rest) =
     (case BoardCell_inverse (cell_at b flipped_x flipped_y) of
        None \<Rightarrow> (b, Some ValueError)
      | Some v \<Rightarrow> flip_cells (set_cell b flipped_x flipped_y v) rest)"

text \<open>\<open>GameBoard.apply_move\<close> of the 8x8 game.\<close>

definition apply_move :: "rboard \<Rightarrow> PlayerType \<Rightarrow> Move \<Rightarrow> rboard \<times> exn option" where
  "apply_move b player_type move =
     (if \<not> is_valid_coordinates (row move) (column move)
      then (b, Some (IncorrectMove BadCoordinates))
      else if cell_at b (row move) (column move) \<noteq> EMPTY
      then (b, Some (IncorrectMove CellNotEmpty))
      else
        (case BoardCell_of (PlayerType_value player_type) of
           None \<Rightarrow> (b, Some ValueError)
         | Some new_cell \<Rightarrow>
             if \<not> is_valid_move b (row move) (column move) new_cell
             then (b, Some (IncorrectMove NothingFlipped))
             else
               (let b1 = set_cell b (row move) (column move) new_cell in
                flip_cells b1
                  (get_flipped_cells_for_move b1 (row move) (column move) new_cell))))"

text \<open>\<open>GameBoard.has_player_correct_move\<close>: the first empty cell with a valid move ends
  the two loops.\<close>

definition has_player_correct_move :: "rboard \<Rightarrow> PlayerType \<Rightarrow> bool option" where
  "has_player_correct_move b current =
     (case BoardCell_of (PlayerType_value current) of
        None \<Rightarrow> None
      | Some new_cell \<Rightarrow>
          Some (list_ex (\<lambda>r. list_ex (\<lambda>c.
                  cell_at b (int r) (int c) = EMPTY \<and> is_valid_move b (int r) (int c) new_cell)
                [0..<nat rsize]) [0..<nat rsize]))"

section \<open>The turn engine: asking a player for a move\<close>

text \<open>
  What a call of \<open>player.move\<close> can hand back: a \<open>Move\<close> (of two \<open>int\<close>s), an \<open>int\<close>
  (a \<open>bool\<close> is an \<open>int\<close>, 0 or 1), a \<open>float\<close> (a finite number, an infinity or
  not-a-number), \<open>None\<close>, or an object of another class, such as a plain tuple. A call
  may also raise, or not return in time.
\<close>

datatype pyfloat = Finite real | PosInf | NegInf | NaN

datatype pyvalue = MoveV Move | IntV int | FloatV pyfloat | NoneV | TupleV int int

datatype response = Returns pyvalue | Raises | TimesOut

text \<open>
  \<open>Game._safe_run\<close>: the value the call returned, \<open>None\<close> after a timeout; an exception
  of the call is raised again by \<open>async_result.get\<close>.
\<close>

definition safe_run :: "response \<Rightarrow> exn + pyvalue" where
  "safe_run r = (case r of Returns v \<Rightarrow> Inr v | Raises \<Rightarrow> Inl AgentError | TimesOut \<Rightarrow> Inr NoneV)"

definition INCORRECT_MOVE_TRIES_LIMIT :: int where
  "INCORRECT_MOVE_TRIES_LIMIT = 5"

text \<open>
  How the \<open>while\<close> loop over \<open>try_index\<close> ends: by \<open>break\<close> after a move that raised
  nothing, in its \<open>else\<close> branch when the test fails, or by an exception that is not an
  \<open>IncorrectMove\<close> and leaves the method. A player is the sequence of its responses in
  this turn; \<open>solicited\<close> counts the calls of \<open>player.move\<close>, and \<open>reported\<close> lists the
  messages of the caught \<open>IncorrectMove\<close>s, which the loop logs one by one.
\<close>

datatype loop_end = Break | Exhausted | Propagated exn

record 'b turn =
  board_now :: 'b
  solicited :: nat
  reported :: "reason list"
  ending :: loop_end

subsection \<open>3x3 game\<close>

text \<open>The body of the \<open>try\<close> statement of \<open>Game._make_one_move\<close>.\<close>

definition t_attempt :: "tboard \<Rightarrow> tPlayerType \<Rightarrow> response \<Rightarrow> tboard \<times> exn option" where
  "t_attempt b current r =
     (case safe_run r of
        Inl e \<Rightarrow> (b, Some (IncorrectMove (MoveFailed e)))
      | Inr v \<Rightarrow>
          (case v of
             MoveV m \<Rightarrow> t_apply_move b current m
           | _ \<Rightarrow> (b, Some (IncorrectMove NotAMove))))"

function t_tries :: "(nat \<Rightarrow> response) \<Rightarrow> tPlayerType \<Rightarrow> int \<Rightarrow> tboard \<Rightarrow> nat \<Rightarrow> reason list
    \<Rightarrow> tboard turn" where
  "t_tries player current try_index b n logged =
     (if try_index < INCORRECT_MOVE_TRIES_LIMIT
      then
        (case t_attempt b current (player n) of
           (b', None) \<Rightarrow>
             \<lparr>board_now = b', solicited = Suc n, reported = logged, ending = Break\<rparr>
         | (b', Some (IncorrectMove why)) \<Rightarrow>
             t_tries player current (try_index + 1) b' (Suc n) (logged @ [why])
         | (b', Some e) \<Rightarrow>
             \<lparr>board_now = b', solicited = Suc n, reported = logged, ending = Propagated e\<rparr>)
      else \<lparr>board_now = b, solicited = n, reported = logged, ending = Exhausted\<rparr>)"
  by pat_completeness auto
termination
  by (relation "measure (\<lambda>(player, current, try_index, b, n, logged).
        nat (INCORRECT_MOVE_TRIES_LIMIT - try_index))") auto

declare t_tries.simps [simp del]

record tGame =
  t_board :: tboard
  t_current_move :: tPlayerType
  t_move_counter :: int
  t_winner :: "tWinner option"

text \<open>
  \<open>Game._make_one_move\<close>: the game as the call leaves it, what happened in the loop, and
  the exception that left the call, if one did.
\<close>

definition t_make_one_move :: "(nat \<Rightarrow> response) \<Rightarrow> (nat \<Rightarrow> response) \<Rightarrow> tGame
    \<Rightarrow> tGame \<times> tboard turn \<times> exn option" where
  "t_make_one_move x_player o_player g =
     (let current = t_current_move g;
          current_player = (if current = PlayerX then x_player else o_player);
          g1 = (if current = PlayerX then g\<lparr>t_move_counter := t_move_counter g + 1\<rparr> else g);
          t = t_tries current_player current 1 (t_board g1) 0 [];
          g2 = g1\<lparr>t_board := board_now t\<rparr>
      in case ending t of
           Propagated e \<Rightarrow> (g2, t, Some e)
         | Exhausted \<Rightarrow>
             (case Option.bind (tPlayerType_inverse current)
                     (\<lambda>q. tWinner_of (tPlayerType_value q)) of
                None \<Rightarrow> (g2, t, Some ValueError)
              | Some w \<Rightarrow> (g2\<lparr>t_winner := Some w\<rparr>, t, None))
         | Break \<Rightarrow>
             (case tPlayerType_inverse current of
                None \<Rightarrow> (g2, t, Some ValueError)
              | Some q \<Rightarrow> (g2\<lparr>t_current_move := q\<rparr>, t, None)))"

subsection \<open>8x8 game\<close>

definition r_attempt :: "rboard \<Rightarrow> PlayerType \<Rightarrow> response \<Rightarrow> rboard \<times> exn option" where
  "r_attempt b current r =
     (case safe_run r of
        Inl e \<Rightarrow> (b, Some (IncorrectMove (MoveFailed e)))
      | Inr v \<Rightarrow>
          (case v of
             MoveV m \<Rightarrow> apply_move b current m
           | _ \<Rightarrow> (b, Some (IncorrectMove NotAMove))))"

function r_tries :: "(nat \<Rightarrow> response) \<Rightarrow> PlayerType \<Rightarrow> int \<Rightarrow> rboard \<Rightarrow> nat \<Rightarrow> reason list
    \<Rightarrow> rboard turn" where
  "r_tries player current try_index b n logged =
     (if try_index < INCORRECT_MOVE_TRIES_LIMIT
      then
        (case r_attempt b current (player n) of
           (b', None) \<Rightarrow>
             \<lparr>board_now = b', solicited = Suc n, reported = logged, ending = Break\<rparr>
         | (b', Some (IncorrectMove why)) \<Rightarrow>
             r_tries player current (try_index + 1) b' (Suc n) (logged @ [why])
         | (b', Some e) \<Rightarrow>
             \<lparr>board_now = b', solicited = Suc n, reported = logged, ending = Propagated e\<rparr>)
      else \<lparr>board_now = b, solicited = n, reported = logged, ending = Exhausted\<rparr>)"
  by pat_completeness auto
termination
  by (relation "measure (\<lambda>(player, current, try_index, b, n, logged).
        nat (INCORRECT_MOVE_TRIES_LIMIT - try_index))") auto

declare r_tries.simps [simp del]

record rGame =
  r_board :: rboard
  r_current_move :: PlayerType
  r_move_counter :: int
  r_winner :: "Winner option"

text \<open>
  \<open>Game._make_one_move\<close> of the 8x8 game: a player without any valid move is passed
  over before the loop.
\<close>

definition r_make_one_move :: "(nat \<Rightarrow> response) \<Rightarrow> (nat \<Rightarrow> response) \<Rightarrow> rGame
    \<Rightarrow> rGame \<times> rboard turn \<times> exn option" where
  "r_make_one_move black_player white_player g =
     (let current = r_current_move g;
          current_player = (if current = PlayerBLACK then black_player else white_player);
          g1 = (if current = PlayerBLACK then g\<lparr>r_move_counter := r_move_counter g + 1\<rparr>
                else g);
          idle = \<lparr>board_now = r_board g1, solicited = 0, reported = [], ending = Break\<rparr>
      in case has_player_correct_move (r_board g1) current of
           None \<Rightarrow> (g1, idle, Some ValueError)
         | Some False \<Rightarrow>
             (case PlayerType_inverse current of
                None \<Rightarrow> (g1, idle, Some ValueError)
              | Some q \<Rightarrow> (g1\<lparr>r_current_move := q\<rparr>, idle, None))
         | Some True \<Rightarrow>
             (let t = r_tries current_player current 1 (r_board g1) 0 [];
                  g2 = g1\<lparr>r_board := board_now t\<rparr>
              in case ending t of
                   Propagated e \<Rightarrow> (g2, t, Some e)
                 | Exhausted \<Rightarrow>
                     (case Option.bind (PlayerType_inverse current)
                             (\<lambda>q. Winner_of (PlayerType_value q)) of
                        None \<Rightarrow> (g2, t, Some ValueError)
                      | Some w \<Rightarrow> (g2\<lparr>r_winner := Some w\<rparr>, t, None))
                 | Break \<Rightarrow>
                     (case PlayerType_inverse current of
                        None \<Rightarrow> (g2, t, Some ValueError)
                      | Some q \<Rightarrow> (g2\<lparr>r_current_move := q\<rparr>, t, None))))"

section \<open>Kirzhanovsky/kirzhanovsky.py\<close>

text \<open>
  The operations of \<open>Game._safe_move\<close> on the returned object. Formatting with \<open>%d\<close>
  takes a number; not-a-number raises \<open>ValueError\<close>, an infinity \<open>OverflowError\<close>, any
  other object \<open>TypeError\<close>.
\<close>

definition format_d :: "pyvalue \<Rightarrow> exn option" where
  "format_d v =
     (case v of
        IntV i \<Rightarrow> None
      | FloatV (Finite x) \<Rightarrow> None
      | FloatV NaN \<Rightarrow> Some ValueError
      | FloatV _ \<Rightarrow> Some OverflowError
      | _ \<Rightarrow> Some TypeError)"

text \<open>\<open>move < 1 or move > len(self.players)\<close>; comparing with not-a-number is false.\<close>

definition out_of_range :: "pyvalue \<Rightarrow> nat \<Rightarrow> exn + bool" where
  "out_of_range v players_count =
     (case v of
        IntV i \<Rightarrow> Inr (i < 1 \<or> i > int players_count)
      | FloatV (Finite x) \<Rightarrow> Inr (x < 1 \<or> x > real players_count)
      | FloatV NaN \<Rightarrow> Inr False
      | FloatV _ \<Rightarrow> Inr True
      | _ \<Rightarrow> Inl TypeError)"

text \<open>
  The inner \<open>try\<close> statement: the call, the log line and the range test; whatever is
  raised there, the \<open>IncorrectMove\<close> of the range test too, is caught and raised again
  as an \<open>IncorrectMove\<close> built from it.
\<close>

definition k_inner :: "nat \<Rightarrow> response \<Rightarrow> exn + pyvalue" where
  "k_inner players_count r =
     (case safe_run r of
        Inl e \<Rightarrow> Inl (IncorrectMove (MoveFailed e))
      | Inr v \<Rightarrow>
          (case format_d v of
             Some e \<Rightarrow> Inl (IncorrectMove (MoveFailed e))
           | None \<Rightarrow>
               (case out_of_range v players_count of
                  Inl e \<Rightarrow> Inl (IncorrectMove (MoveFailed e))
                | Inr True \<Rightarrow> Inl (IncorrectMove (MoveFailed (IncorrectMove BadValue)))
                | Inr False \<Rightarrow> Inr v)))"

text \<open>The outer \<open>try\<close> statement: the inner one, then \<open>isinstance(move, int)\<close>.\<close>

definition k_attempt :: "nat \<Rightarrow> response \<Rightarrow> exn + int" where
  "k_attempt players_count r =
     (case k_inner players_count r of
        Inl e \<Rightarrow> Inl e
      | Inr v \<Rightarrow> (case v of IntV i \<Rightarrow> Inr i | _ \<Rightarrow> Inl (IncorrectMove NotAnInt)))"

record safe_move_result =
  returned :: int
  asked :: nat
  messages :: "reason list"
  escaped :: "exn option"

text \<open>\<open>Game._safe_move\<close>: the loop, and \<open>-1\<close> from its \<open>else\<close> branch.\<close>

function k_safe_move_loop :: "nat \<Rightarrow> (nat \<Rightarrow> response) \<Rightarrow> int \<Rightarrow> nat \<Rightarrow> reason list
    \<Rightarrow> safe_move_result" where
  "k_safe_move_loop players_count player try_index n logged =
     (if try_index < INCORRECT_MOVE_TRIES_LIMIT
      then
        (case k_attempt players_count (player n) of
           Inr move \<Rightarrow> \<lparr>returned = move, asked = Suc n, messages = logged, escaped = None\<rparr>
         | Inl (IncorrectMove why) \<Rightarrow>
             k_safe_move_loop players_count player (try_index + 1) (Suc n) (logged @ [why])
         | Inl e \<Rightarrow> \<lparr>returned = 0, asked = Suc n, messages = logged, escaped = Some e\<rparr>)
      else \<lparr>returned = -1, asked = n, messages = logged, escaped = None\<rparr>)"
  by pat_completeness auto
termination
  by (relation "measure (\<lambda>(players_count, player, try_index, n, logged).
        nat (INCORRECT_MOVE_TRIES_LIMIT - try_index))") auto

declare k_safe_move_loop.simps [simp del]

definition k_safe_move :: "nat \<Rightarrow> (nat \<Rightarrow> response) \<Rightarrow> safe_move_result" where
  "k_safe_move players_count player = k_safe_move_loop players_count player 1 0 []"

record kGame =
  k_history :: "int list list"
  k_move_number :: int
  k_winner :: "nat option"

text \<open>\<open>Game._make_one_move\<close>: one round, a move of every player.\<close>

definition k_make_one_move :: "(nat \<Rightarrow> response) list \<Rightarrow> kGame \<Rightarrow> kGame" where
  "k_make_one_move players g =
     g\<lparr>k_move_number := k_move_number g + 1,
       k_history := k_history g
         @ [map (\<lambda>player. returned (k_safe_move (length players) player)) players]\<rparr>"

text \<open>
  The loop of \<open>Game._find_winner\<close> over the players of one round in the order of
  \<open>sorted(enumerate(round), key=operator.itemgetter(1))\<close>: the first player whose move
  is counted once ends it. \<open>counts[player_move]\<close> is \<open>round.count(player_move)\<close>.
\<close>

fun first_counted_once :: "(nat \<times> int) list \<Rightarrow> int list \<Rightarrow> (nat \<times> int) option" where
  "first_counted_once [] round' = None"
| "first_counted_once ((player_id, player_move) # rest) round' =
     (if count_list round' player_move = 1 then Some (player_id, player_move)
      else first_counted_once rest round')"

definition score_round :: "int list \<Rightarrow> int list \<Rightarrow> int list" where
  "score_round scores round' =
     (case first_counted_once (sort_key snd (enumerate 0 round')) round' of
        None \<Rightarrow> scores
      | Some (player_id, player_move) \<Rightarrow>
          scores[player_id := scores ! player_id + player_move])"

definition round_scores :: "nat \<Rightarrow> int list list \<Rightarrow> int list" where
  "round_scores players_count history = foldl score_round (replicate players_count 0) history"

text \<open>
  \<open>Game._find_winner\<close>: whether one player alone has the highest score, and the game
  with that player as the winner. With no player at all \<open>max\<close> raises (\<open>None\<close>).
\<close>

definition k_find_winner :: "nat \<Rightarrow> kGame \<Rightarrow> (bool \<times> kGame) option" where
  "k_find_winner players_count g =
     (let scores = round_scores players_count (k_history g) in
      if scores = [] then None
      else
        (let max_score = Max (set scores);
             best_players = filter (\<lambda>i. scores ! i = max_score) [0..<length scores]
         in if length best_players \<noteq> 1 then Some (False, g)
            else Some (True, g\<lparr>k_winner := Some (hd best_players)\<rparr>)))"

section \<open>Boards and histories as objects: what a player is handed\<close>

text \<open>
  A player is called with a copy of the board or of the history. Whether the copy shares
  anything with the engine's own object is a question of references, so here the lists
  and the \<open>GameBoard\<close> objects live in a store: an address is an index into the list of
  all objects, and a new object is put at its end. A list slot or an attribute holds an
  enumeration constant, an \<open>int\<close>, or a reference to an object.
\<close>

type_synonym addr = nat

datatype 'c hval = Enum 'c | Num int | Ref addr

datatype 'c obj = ListObj "'c hval list" | BoardObj "'c hval" "'c hval"

type_synonym 'c heap = "'c obj list"

definition alloc :: "'c heap \<Rightarrow> 'c obj \<Rightarrow> 'c heap \<times> addr" where
  "alloc h ob = (h @ [ob], length h)"

definition lookup :: "'c heap \<Rightarrow> addr \<Rightarrow> 'c obj option" where
  "lookup h a = (if a < length h then Some (h ! a) else None)"

text \<open>The constructor \<open>GameBoard()\<close>: a list for each row, the list of the rows, and the
  object with its attributes \<open>size\<close> and \<open>board\<close>.\<close>

fun alloc_lists :: "'c heap \<Rightarrow> 'c hval list list \<Rightarrow> 'c heap \<times> 'c hval list" where
  "alloc_lists h [] = (h, [])"
| "alloc_lists h (items # rest) =
     (case alloc h (ListObj items) of
        (h1, a) \<Rightarrow> (case alloc_lists h1 rest of (h2, refs) \<Rightarrow> (h2, Ref a # refs)))"

definition new_board_object :: "int \<Rightarrow> 'c list list \<Rightarrow> 'c heap \<Rightarrow> 'c heap \<times> addr" where
  "new_board_object size' cells h =
     (case alloc_lists h (map (map Enum) cells) of
        (h1, refs) \<Rightarrow>
          (case alloc h1 (ListObj refs) of
             (h2, l) \<Rightarrow> alloc h2 (BoardObj (Num size') (Ref l))))"

text \<open>
  \<open>[cell.value for cell in row]\<close>: only an enumeration constant has a \<open>value\<close>; on
  anything else the attribute access raises (\<open>None\<close>).
\<close>

fun values_of :: "('c \<Rightarrow> int) \<Rightarrow> 'c hval list \<Rightarrow> 'c hval list option" where
  "values_of val [] = Some []"
| "values_of val (v # vs) =
     (case v of
        Enum c \<Rightarrow> map_option (\<lambda>rest. Num (val c) # rest) (values_of val vs)
      | _ \<Rightarrow> None)"

text \<open>
  The outer comprehension \<open>[[...] for row in self.board]\<close>, and the copy of the rows in
  \<open>deepcopy\<close>: every row is read and a new list is made from its converted items.
\<close>

fun copy_rows :: "('c hval list \<Rightarrow> 'c hval list option) \<Rightarrow> 'c heap \<Rightarrow> 'c hval list
    \<Rightarrow> ('c heap \<times> 'c hval list) option" where
  "copy_rows conv h [] = Some (h, [])"
| "copy_rows conv h (v # vs) =
     (case v of
        Ref r \<Rightarrow>
          (case lookup h r of
             Some (ListObj items) \<Rightarrow>
               (case conv items of
                  Some items' \<Rightarrow>
                    (case alloc h (ListObj items') of
                       (h1, a) \<Rightarrow>
                         (case copy_rows conv h1 vs of
                            Some (h2, refs) \<Rightarrow> Some (h2, Ref a # refs)
                          | None \<Rightarrow> None))
                | None \<Rightarrow> None)
           | _ \<Rightarrow> None)
      | _ \<Rightarrow> None)"

text \<open>
  \<open>GameBoard.create_copy_for_player\<close>, the same text in both modules: a new
  \<open>GameBoard\<close>, whose \<open>board\<close> attribute is then set to the new list of lists of values.
  \<open>val\<close> is the \<open>value\<close> of the module's \<open>BoardCell\<close>, \<open>size\<close> and \<open>cells\<close> are what the
  module's constructor builds.
\<close>

definition create_copy_for_player :: "('c \<Rightarrow> int) \<Rightarrow> int \<Rightarrow> 'c list list \<Rightarrow> 'c heap \<Rightarrow> addr
    \<Rightarrow> ('c heap \<times> addr) option" where
  "create_copy_for_player val size' cells h self =
     (case new_board_object size' cells h of
        (h1, board_copy) \<Rightarrow>
          (case lookup h1 self of
             Some (BoardObj sz (Ref l)) \<Rightarrow>
               (case lookup h1 l of
                  Some (ListObj rows) \<Rightarrow>
                    (case copy_rows (values_of val) h1 rows of
                       Some (h2, refs) \<Rightarrow>
                         (case alloc h2 (ListObj refs) of
                            (h3, l') \<Rightarrow>
                              Some (h3[board_copy := BoardObj (Num size') (Ref l')], board_copy))
                     | None \<Rightarrow> None)
                | _ \<Rightarrow> None)
           | _ \<Rightarrow> None))"

definition t_create_copy_for_player :: "tBoardCell heap \<Rightarrow> addr \<Rightarrow> (tBoardCell heap \<times> addr) option"
  where
  "t_create_copy_for_player = create_copy_for_player tBoardCell_value tsize tGameBoard"

definition r_create_copy_for_player :: "BoardCell heap \<Rightarrow> addr \<Rightarrow> (BoardCell heap \<times> addr) option"
  where
  "r_create_copy_for_player = create_copy_for_player BoardCell_value rsize GameBoard"

text \<open>
  \<open>copy.deepcopy(self.history)\<close> in \<open>Game._safe_move\<close>, for the shape the history has: a
  list of rounds, each a list of its own (built by \<open>_make_one_move\<close>) that holds
  numbers. Outside this shape (a round that is listed twice, a round that holds a
  reference) the model gives \<open>None\<close>.
\<close>

fun plain_items :: "'c hval list \<Rightarrow> 'c hval list option" where
  "plain_items [] = Some []"
| "plain_items (v # vs) =
     (case v of
        Ref r \<Rightarrow> None
      | _ \<Rightarrow> map_option (\<lambda>rest. v # rest) (plain_items vs))"

definition deepcopy_history :: "'c heap \<Rightarrow> addr \<Rightarrow> ('c heap \<times> addr) option" where
  "deepcopy_history h history =
     (case lookup h history of
        Some (ListObj rows) \<Rightarrow>
          (if distinct rows
           then (case copy_rows plain_items h rows of
                   Some (h1, refs) \<Rightarrow> Some (alloc h1 (ListObj refs))
                 | None \<Rightarrow> None)
           else None)
      | _ \<Rightarrow> None)"

text \<open>Reading: \<open>xs[i]\<close> of a list, and the rows behind a list of rows.\<close>

definition item :: "'c heap \<Rightarrow> addr \<Rightarrow> nat \<Rightarrow> 'c hval option" where
  "item h a i =
     (case lookup h a of
        Some (ListObj xs) \<Rightarrow> (if i < length xs then Some (xs ! i) else None)
      | _ \<Rightarrow> None)"

fun rows_of :: "'c heap \<Rightarrow> 'c hval list \<Rightarrow> 'c hval list list option" where
  "rows_of h [] = Some []"
| "rows_of h (v # vs) =
     (case v of
        Ref r \<Rightarrow>
          (case lookup h r of
             Some (ListObj items) \<Rightarrow> map_option (\<lambda>rest. items # rest) (rows_of h vs)
           | _ \<Rightarrow> None)
      | _ \<Rightarrow> None)"

text \<open>All cells of a list of lists, and of the \<open>board\<close> of a \<open>GameBoard\<close> object.\<close>

definition matrix_of :: "'c heap \<Rightarrow> addr \<Rightarrow> 'c hval list list option" where
  "matrix_of h l = (case lookup h l of Some (ListObj rows) \<Rightarrow> rows_of h rows | _ \<Rightarrow> None)"

definition board_of :: "'c heap \<Rightarrow> addr \<Rightarrow> 'c hval list list option" where
  "board_of h self =
     (case lookup h self of Some (BoardObj sz (Ref l)) \<Rightarrow> matrix_of h l | _ \<Rightarrow> None)"

text \<open>\<open>board[r][c]\<close> through \<open>GameBoard.__getitem__\<close>.\<close>

definition board_item :: "'c heap \<Rightarrow> addr \<Rightarrow> nat \<Rightarrow> nat \<Rightarrow> 'c hval option" where
  "board_item h self r c =
     (case lookup h self of
        Some (BoardObj sz (Ref l)) \<Rightarrow>
          (case item h l r of Some (Ref rw) \<Rightarrow> item h rw c | _ \<Rightarrow> None)
      | _ \<Rightarrow> None)"

text \<open>
  What the code of a player can do to the store. It starts with the reference it was
  called with. It can read an object it holds a reference to, and so come to hold the
  references in it; it can overwrite such an object (assign to an item or an attribute,
  append, delete) with contents made of numbers, enumeration constants and references
  it holds; and it can make new objects of such contents.
\<close>

fun refs_in :: "'c hval list \<Rightarrow> addr list" where
  "refs_in [] = []"
| "refs_in (v # vs) = (case v of Ref a \<Rightarrow> a # refs_in vs | _ \<Rightarrow> refs_in vs)"

definition refs_of :: "'c obj \<Rightarrow> addr set" where
  "refs_of ob = set (case ob of ListObj xs \<Rightarrow> refs_in xs | BoardObj sz b \<Rightarrow> refs_in [sz, b])"

inductive agent :: "addr set \<Rightarrow> 'c heap \<Rightarrow> addr set \<Rightarrow> 'c heap \<Rightarrow> bool" where
  nothing: "agent K h K h"
| reads: "agent K h K' h' \<Longrightarrow> a \<in> K' \<Longrightarrow> lookup h' a = Some ob
    \<Longrightarrow> agent K h (K' \<union> refs_of ob) h'"
| writes: "agent K h K' h' \<Longrightarrow> a \<in> K' \<Longrightarrow> a < length h' \<Longrightarrow> refs_of ob \<subseteq> K'
    \<Longrightarrow> agent K h K' (h'[a := ob])"
| creates: "agent K h K' h' \<Longrightarrow> refs_of ob \<subseteq> K'
    \<Longrightarrow> agent K h (insert (length h') K') (h' @ [ob])"

section \<open>Notions used in the statements\<close>

text \<open>A board of \<open>n\<close> rows of \<open>n\<close> cells, as the constructors build it.\<close>

definition wf_board :: "nat \<Rightarrow> 'c list list \<Rightarrow> bool" where
  "wf_board n b = (length b = n \<and> list_all (\<lambda>cells. length cells = n) b)"

text \<open>
  A sequence of calls of \<open>apply_move\<close> on the board of a game: the engine keeps the
  board as each call leaves it, whether the call raised or not.
\<close>

definition t_played :: "tboard \<Rightarrow> (tPlayerType \<times> Move) list \<Rightarrow> tboard" where
  "t_played b calls =
     fold (\<lambda>(player_type, move) b. fst (t_apply_move b player_type move)) calls b"

definition r_played :: "rboard \<Rightarrow> (PlayerType \<times> Move) list \<Rightarrow> rboard" where
  "r_played b calls =
     fold (\<lambda>(player_type, move) b. fst (apply_move b player_type move)) calls b"

text \<open>
  The capture rule in the words of the specification, to compare the code with. The
  cells met from a target in a direction, up to the edge of the board; the run of
  opposing cells at the start of them; the run is captured when it is not empty and the
  cell right after it is on the board and of the mover's colour.
\<close>

definition spec_ray :: "int \<Rightarrow> int \<Rightarrow> int \<times> int \<Rightarrow> (int \<times> int) list" where
  "spec_ray r c d =
     takeWhile (\<lambda>(x, y). is_valid_coordinates x y)
       (map (\<lambda>k. (r + int k * fst d, c + int k * snd d)) [1..<9])"

definition spec_captured_run :: "rboard \<Rightarrow> int \<Rightarrow> int \<Rightarrow> BoardCell \<Rightarrow> int \<times> int
    \<Rightarrow> (int \<times> int) list" where
  "spec_captured_run b r c own d =
     (let opposing =
            takeWhile (\<lambda>(x, y). cell_at b x y \<noteq> EMPTY \<and> cell_at b x y \<noteq> own) (spec_ray r c d);
          beyond = drop (length opposing) (spec_ray r c d)
      in if opposing \<noteq> [] \<and> beyond \<noteq> [] \<and> (case hd beyond of (x, y) \<Rightarrow> cell_at b x y = own)
         then opposing else [])"

definition spec_captured_cells :: "rboard \<Rightarrow> int \<Rightarrow> int \<Rightarrow> BoardCell \<Rightarrow> (int \<times> int) list" where
  "spec_captured_cells b r c own = concat (map (spec_captured_run b r c own) directions)"

text \<open>A call that ended with an \<open>IncorrectMove\<close>, the exception the loops catch.\<close>

definition raises_IncorrectMove :: "exn option \<Rightarrow> bool" where
  "raises_IncorrectMove e = (case e of Some (IncorrectMove why) \<Rightarrow> True | _ \<Rightarrow> False)"

text \<open>
  The winner of a round in the words of the specification: the player whose value occurs
  exactly once in the round and is the lowest of the values that do.
\<close>

definition wins_round :: "int list \<Rightarrow> nat \<Rightarrow> bool" where
  "wins_round round' i =
     (i < length round' \<and> count_list round' (round' ! i) = 1
      \<and> list_all (\<lambda>v. count_list round' v = 1 \<longrightarrow> round' ! i \<le> v) round')"

text \<open>
  The part of the store from address \<open>n\<close> on is closed: the references \<open>K\<close> and the
  references in every object from \<open>n\<close> on point at objects from \<open>n\<close> on.
\<close>

definition confined :: "nat \<Rightarrow> addr set \<Rightarrow> 'c heap \<Rightarrow> bool" where
  "confined n K h =
     (n \<le> length h \<and> K \<subseteq> {n..<length h}
      \<and> (\<forall>a. n \<le> a \<and> a < length h \<longrightarrow> refs_of (h ! a) \<subseteq> {n..<length h}))"

section \<open>Cells and boards\<close>

lemma nth_set_cell:
  "set_cell b r c v ! i ! j =
     (if i = nat r \<and> j = nat c \<and> nat r < length b \<and> nat c < length (b ! nat r) then v
      else b ! i ! j)"
  by (cases "nat r < length b") (auto simp: set_cell_def nth_list_update list_update_beyond)

lemma wf_set_cell: "wf_board n b \<Longrightarrow> wf_board n (set_cell b r c v)"
  by (cases "nat r < length b")
    (auto simp: wf_board_def set_cell_def list_all_length nth_list_update list_update_beyond)

section \<open>The 3x3 game\<close>

text \<open>A call of \<open>apply_move\<close> that raises leaves the board as it was.\<close>

lemma t_apply_move_raises: "t_apply_move b p m = (b', Some e) \<Longrightarrow> b' = b"
  by (auto simp: t_apply_move_def split: if_splits option.splits)

lemma t_apply_move_cell:
  "fst (t_apply_move b p m) ! i ! j \<noteq> b ! i ! j \<Longrightarrow> b ! i ! j = tEMPTY"
  by (cases p)
    (auto simp: t_apply_move_def tBoardCell_of_def nth_set_cell cell_at_def split: if_splits)

lemma wf_t_apply_move: "wf_board n b \<Longrightarrow> wf_board n (fst (t_apply_move b p m))"
  by (auto simp: t_apply_move_def wf_set_cell split: option.splits)

lemma wf_t_played: "wf_board n b \<Longrightarrow> wf_board n (t_played b calls)"
proof (induction calls arbitrary: b)
  case Nil
  then show ?case by (simp add: t_played_def)
next
  case (Cons a calls)
  obtain p m where a: "a = (p, m)" by (cases a)
  have "wf_board n (fst (t_apply_move b p m))"
    using Cons.prems by (rule wf_t_apply_move)
  then have "wf_board n (t_played (fst (t_apply_move b p m)) calls)"
    by (rule Cons.IH)
  then show ?case by (simp add: t_played_def a)
qed

lemma t_played_keeps: "b ! i ! j \<noteq> tEMPTY \<Longrightarrow> t_played b calls ! i ! j = b ! i ! j"
proof (induction calls arbitrary: b)
  case Nil
  then show ?case by (simp add: t_played_def)
next
  case (Cons a calls)
  obtain p m where a: "a = (p, m)" by (cases a)
  have "fst (t_apply_move b p m) ! i ! j = b ! i ! j"
    using Cons.prems t_apply_move_cell by blast
  with Cons show ?case by (simp add: t_played_def a)
qed

text \<open>On a board with an empty cell a top row of one mark is a win for that mark.\<close>

lemma t_get_winner_top_row:
  assumes "\<not> t_is_full b" and "b ! 0 = [p, p, p]" and "p \<noteq> tEMPTY"
  shows "t_get_winner b = tWinner_of (tBoardCell_value p)"
proof -
  have "[0..<nat tsize] = [0, 1, 2]" by (simp add: tsize_def upt_rec)
  moreover have "t_is_cells_full_by_player [p, p, p] = tWinner_of (tBoardCell_value p)"
    using assms(3) by (simp add: t_is_cells_full_by_player_def)
  moreover have "tWinner_of (tBoardCell_value p) \<noteq> None"
    using assms(3) by (cases p) (simp_all add: tWinner_of_def)
  ultimately show ?thesis
    using assms(1,2) by (auto simp: t_get_winner_def split: option.splits)
qed

text \<open>
  C3. The claim: a board whose top row is filled with one player's mark is a win for
  that player, whatever the other cells hold, a board without any empty cell included.
  \<open>get_winner\<close> asks \<open>is_full\<close> first: on the board below, which nine moves of a game
  reach and on which the ninth move completes the top row of crosses, it answers with a
  draw.
\<close>

theorem t_get_winner_full_board_is_draw:
  "t_played tGameBoard
     [(PlayerX, Move 0 0), (PlayerO, Move 1 0), (PlayerX, Move 0 1), (PlayerO, Move 1 1),
      (PlayerX, Move 1 2), (PlayerO, Move 2 1), (PlayerX, Move 2 0), (PlayerO, Move 2 2),
      (PlayerX, Move 0 2)]
     = [[tX, tX, tX], [tO, tO, tX], [tX, tO, tO]]
   \<and> t_get_winner [[tX, tX, tX], [tO, tO, tX], [tX, tO, tO]] = Some tDRAW"
  by code_simp

section \<open>The 8x8 game\<close>

lemma BoardCell_inverse_owned: "BoardCell_inverse c = Some v \<Longrightarrow> v \<noteq> EMPTY"
  by (cases c) (auto simp: BoardCell_inverse_def BoardCell_of_def)

lemma flip_cells_owned:
  "b ! i ! j \<noteq> EMPTY \<Longrightarrow> fst (flip_cells b fl) ! i ! j \<noteq> EMPTY"
proof (induction b fl rule: flip_cells.induct)
  case (1 b)
  then show ?case by simp
next
  case (2 b x y rest)
  show ?case
  proof (cases "BoardCell_inverse (cell_at b x y)")
    case None
    with 2 show ?thesis by simp
  next
    case (Some v)
    then have "v \<noteq> EMPTY" by (rule BoardCell_inverse_owned)
    with "2.prems" have "set_cell b x y v ! i ! j \<noteq> EMPTY" by (simp add: nth_set_cell)
    with "2.IH" Some show ?thesis by simp
  qed
qed

lemma wf_flip_cells: "wf_board n b \<Longrightarrow> wf_board n (fst (flip_cells b fl))"
  by (induction b fl rule: flip_cells.induct) (auto simp: wf_set_cell split: option.splits)

lemma flip_cells_not_IncorrectMove: "snd (flip_cells b fl) \<noteq> Some (IncorrectMove why)"
  by (induction b fl rule: flip_cells.induct) (auto split: option.splits)

lemma apply_move_owned:
  "b ! i ! j \<noteq> EMPTY \<Longrightarrow> fst (apply_move b p m) ! i ! j \<noteq> EMPTY"
  by (cases p)
    (auto simp: apply_move_def BoardCell_of_def Let_def nth_set_cell
      intro!: flip_cells_owned split: if_splits)

lemma wf_apply_move: "wf_board n b \<Longrightarrow> wf_board n (fst (apply_move b p m))"
  by (auto simp: apply_move_def Let_def wf_set_cell wf_flip_cells split: option.splits)

text \<open>A call of \<open>apply_move\<close> that raises \<open>IncorrectMove\<close> leaves the board as it was.\<close>

lemma apply_move_IncorrectMove: "apply_move b p m = (b', Some (IncorrectMove why)) \<Longrightarrow> b' = b"
  using flip_cells_not_IncorrectMove
  by (auto simp: apply_move_def Let_def split: if_splits option.splits) (metis snd_conv)

lemma wf_r_played: "wf_board n b \<Longrightarrow> wf_board n (r_played b calls)"
proof (induction calls arbitrary: b)
  case Nil
  then show ?case by (simp add: r_played_def)
next
  case (Cons a calls)
  obtain p m where a: "a = (p, m)" by (cases a)
  have "wf_board n (fst (apply_move b p m))"
    using Cons.prems by (rule wf_apply_move)
  then have "wf_board n (r_played (fst (apply_move b p m)) calls)"
    by (rule Cons.IH)
  then show ?case by (simp add: r_played_def a)
qed

lemma r_played_owned: "b ! i ! j \<noteq> EMPTY \<Longrightarrow> r_played b calls ! i ! j \<noteq> EMPTY"
proof (induction calls arbitrary: b)
  case Nil
  then show ?case by (simp add: r_played_def)
next
  case (Cons a calls)
  obtain p m where a: "a = (p, m)" by (cases a)
  have "fst (apply_move b p m) ! i ! j \<noteq> EMPTY"
    using Cons.prems by (rule apply_move_owned)
  with Cons show ?case by (simp add: r_played_def a)
qed

text \<open>
  The cells \<open>_get_flipped_cells_for_move\<close> lists are on the board, so the last loop of
  \<open>apply_move\<close> reads and writes in range.
\<close>

lemma walk_valid:
  "(x, y) \<in> set (walk b bc d x0 y0 acc)
   \<Longrightarrow> (x, y) \<in> set acc \<or> is_valid_coordinates x y"
proof (induction b bc d x0 y0 acc rule: walk.induct)
  case (1 b board_cell d x0 y0 acc)
  show ?case
  proof (cases "d \<in> set directions \<and> is_valid_coordinates x0 y0")
    case False
    with "1.prems" show ?thesis by (simp add: walk.simps)
  next
    case True
    show ?thesis
    proof (cases "cell_at b x0 y0 = board_cell")
      case same: True
      with True "1.prems" show ?thesis by (simp add: walk.simps)
    next
      case other: False
      with True "1.prems"
      have "(x, y) \<in> set (walk b board_cell d (x0 + fst d) (y0 + snd d) (acc @ [(x0, y0)]))"
        by (simp add: walk.simps)
      with "1.IH" True other
      have "(x, y) \<in> set (acc @ [(x0, y0)]) \<or> is_valid_coordinates x y" by simp
      with True show ?thesis by auto
    qed
  qed
qed

lemma get_flipped_cells_valid:
  "(x, y) \<in> set (get_flipped_cells_for_move b r c bc) \<Longrightarrow> is_valid_coordinates x y"
  by (auto simp: get_flipped_cells_for_move_def flipped_towards_def Let_def
      dest: walk_valid split: if_splits)

text \<open>
  C1. The claim: the cells turned by a move are the runs of opposing cells that start
  next to the target and end at a cell of the mover's colour, a direction that meets
  an empty cell first adds nothing, and the move is legal exactly when some cell is
  captured. The \<open>while\<close> loop does not stop at an empty cell. After the four opening
  moves below Black plays (5, 2): upwards lie a white cell, an empty cell and a black
  cell, and the code lists the white and the empty cell besides the one cell, (4, 3),
  that the rule captures; \<open>apply_move\<close> then fails on the empty cell with \<open>ValueError\<close>.
\<close>

theorem get_flipped_cells_runs_over_empty_cell:
  "r_played GameBoard
     [(PlayerBLACK, Move 2 3), (PlayerWHITE, Move 2 2), (PlayerBLACK, Move 2 1),
      (PlayerWHITE, Move 4 2)]
     = [[EMPTY, EMPTY, EMPTY, EMPTY, EMPTY, EMPTY, EMPTY, EMPTY],
        [EMPTY, EMPTY, EMPTY, EMPTY, EMPTY, EMPTY, EMPTY, EMPTY],
        [EMPTY, BLACK, BLACK, BLACK, EMPTY, EMPTY, EMPTY, EMPTY],
        [EMPTY, EMPTY, EMPTY, WHITE, BLACK, EMPTY, EMPTY, EMPTY],
        [EMPTY, EMPTY, WHITE, WHITE, WHITE, EMPTY, EMPTY, EMPTY],
        [EMPTY, EMPTY, EMPTY, EMPTY, EMPTY, EMPTY, EMPTY, EMPTY],
        [EMPTY, EMPTY, EMPTY, EMPTY, EMPTY, EMPTY, EMPTY, EMPTY],
        [EMPTY, EMPTY, EMPTY, EMPTY, EMPTY, EMPTY, EMPTY, EMPTY]]
   \<and> get_flipped_cells_for_move
       [[EMPTY, EMPTY, EMPTY, EMPTY, EMPTY, EMPTY, EMPTY, EMPTY],
        [EMPTY, EMPTY, EMPTY, EMPTY, EMPTY, EMPTY, EMPTY, EMPTY],
        [EMPTY, BLACK, BLACK, BLACK, EMPTY, EMPTY, EMPTY, EMPTY],
        [EMPTY, EMPTY, EMPTY, WHITE, BLACK, EMPTY, EMPTY, EMPTY],
        [EMPTY, EMPTY, WHITE, WHITE, WHITE, EMPTY, EMPTY, EMPTY],
        [EMPTY, EMPTY, EMPTY, EMPTY, EMPTY, EMPTY, EMPTY, EMPTY],
        [EMPTY, EMPTY, EMPTY, EMPTY, EMPTY, EMPTY, EMPTY, EMPTY],
        [EMPTY, EMPTY, EMPTY, EMPTY, EMPTY, EMPTY, EMPTY, EMPTY]] 5 2 BLACK
     = [(4, 2), (3, 2), (4, 3)]
   \<and> spec_captured_cells
       [[EMPTY, EMPTY, EMPTY, EMPTY, EMPTY, EMPTY, EMPTY, EMPTY],
        [EMPTY, EMPTY, EMPTY, EMPTY, EMPTY, EMPTY, EMPTY, EMPTY],
        [EMPTY, BLACK, BLACK, BLACK, EMPTY, EMPTY, EMPTY, EMPTY],
        [EMPTY, EMPTY, EMPTY, WHITE, BLACK, EMPTY, EMPTY, EMPTY],
        [EMPTY, EMPTY, WHITE, WHITE, WHITE, EMPTY, EMPTY, EMPTY],
        [EMPTY, EMPTY, EMPTY, EMPTY, EMPTY, EMPTY, EMPTY, EMPTY],
        [EMPTY, EMPTY, EMPTY, EMPTY, EMPTY, EMPTY, EMPTY, EMPTY],
        [EMPTY, EMPTY, EMPTY, EMPTY, EMPTY, EMPTY, EMPTY, EMPTY]] 5 2 BLACK
     = [(4, 3)]
   \<and> snd (apply_move
       [[EMPTY, EMPTY, EMPTY, EMPTY, EMPTY, EMPTY, EMPTY, EMPTY],
        [EMPTY, EMPTY, EMPTY, EMPTY, EMPTY, EMPTY, EMPTY, EMPTY],
        [EMPTY, BLACK, BLACK, BLACK, EMPTY, EMPTY, EMPTY, EMPTY],
        [EMPTY, EMPTY, EMPTY, WHITE, BLACK, EMPTY, EMPTY, EMPTY],
        [EMPTY, EMPTY, WHITE, WHITE, WHITE, EMPTY, EMPTY, EMPTY],
        [EMPTY, EMPTY, EMPTY, EMPTY, EMPTY, EMPTY, EMPTY, EMPTY],
        [EMPTY, EMPTY, EMPTY, EMPTY, EMPTY, EMPTY, EMPTY, EMPTY],
        [EMPTY, EMPTY, EMPTY, EMPTY, EMPTY, EMPTY, EMPTY, EMPTY]] PlayerBLACK (Move 5 2))
     = Some ValueError"
  by code_simp

text \<open>
  C4. The claim: whenever \<open>apply_move\<close> fails, every cell of the board is as it was
  before the call. That holds for every call that raises \<open>IncorrectMove\<close>
  (\<open>t_apply_move_raises\<close>, \<open>apply_move_IncorrectMove\<close>). The call of C1 fails with
  \<open>ValueError\<close> after it has placed the stone at (5, 2) and turned the cell (4, 2).
\<close>

theorem apply_move_fails_after_writing:
  "apply_move
       [[EMPTY, EMPTY, EMPTY, EMPTY, EMPTY, EMPTY, EMPTY, EMPTY],
        [EMPTY, EMPTY, EMPTY, EMPTY, EMPTY, EMPTY, EMPTY, EMPTY],
        [EMPTY, BLACK, BLACK, BLACK, EMPTY, EMPTY, EMPTY, EMPTY],
        [EMPTY, EMPTY, EMPTY, WHITE, BLACK, EMPTY, EMPTY, EMPTY],
        [EMPTY, EMPTY, WHITE, WHITE, WHITE, EMPTY, EMPTY, EMPTY],
        [EMPTY, EMPTY, EMPTY, EMPTY, EMPTY, EMPTY, EMPTY, EMPTY],
        [EMPTY, EMPTY, EMPTY, EMPTY, EMPTY, EMPTY, EMPTY, EMPTY],
        [EMPTY, EMPTY, EMPTY, EMPTY, EMPTY, EMPTY, EMPTY, EMPTY]] PlayerBLACK (Move 5 2)
   = ([[EMPTY, EMPTY, EMPTY, EMPTY, EMPTY, EMPTY, EMPTY, EMPTY],
       [EMPTY, EMPTY, EMPTY, EMPTY, EMPTY, EMPTY, EMPTY, EMPTY],
       [EMPTY, BLACK, BLACK, BLACK, EMPTY, EMPTY, EMPTY, EMPTY],
       [EMPTY, EMPTY, EMPTY, WHITE, BLACK, EMPTY, EMPTY, EMPTY],
       [EMPTY, EMPTY, BLACK, WHITE, WHITE, EMPTY, EMPTY, EMPTY],
       [EMPTY, EMPTY, BLACK, EMPTY, EMPTY, EMPTY, EMPTY, EMPTY],
       [EMPTY, EMPTY, EMPTY, EMPTY, EMPTY, EMPTY, EMPTY, EMPTY],
       [EMPTY, EMPTY, EMPTY, EMPTY, EMPTY, EMPTY, EMPTY, EMPTY]], Some ValueError)"
  by code_simp

text \<open>
  C8. Whatever calls of \<open>apply_move\<close> are made on a board, in the 3x3 game a cell that
  holds a mark keeps it, so a cell changes only from empty to a mark; in the 8x8 game a
  cell that holds a stone holds a stone afterwards, so a cell changes only from empty to
  a stone or from one colour to the other. No cell goes back to empty, and the board
  keeps its shape.
\<close>

theorem owned_cells_never_emptied:
  "(wf_board 3 tb \<longrightarrow>
      wf_board 3 (t_played tb tcalls)
      \<and> (\<forall>i<3. \<forall>j<3. tb ! i ! j \<noteq> tEMPTY \<longrightarrow> t_played tb tcalls ! i ! j = tb ! i ! j))
   \<and> (wf_board 8 rb \<longrightarrow>
      wf_board 8 (r_played rb rcalls)
      \<and> (\<forall>i<8. \<forall>j<8. rb ! i ! j \<noteq> EMPTY \<longrightarrow> r_played rb rcalls ! i ! j \<noteq> EMPTY))"
  by (simp add: wf_t_played wf_r_played t_played_keeps r_played_owned)

theorem owned_cells_never_emptied_witness:
  "wf_board 3 [[tX, tEMPTY, tEMPTY], [tEMPTY, tEMPTY, tEMPTY], [tEMPTY, tEMPTY, tEMPTY]]
   \<and> t_played [[tX, tEMPTY, tEMPTY], [tEMPTY, tEMPTY, tEMPTY], [tEMPTY, tEMPTY, tEMPTY]]
       [(PlayerO, Move 0 0), (PlayerO, Move 1 1)] ! 0 ! 0 = tX
   \<and> wf_board 8 GameBoard
   \<and> r_played GameBoard [(PlayerBLACK, Move 2 3), (PlayerWHITE, Move 2 2)] ! 3 ! 3 \<noteq> EMPTY"
proof -
  have t: "wf_board 3 [[tX, tEMPTY, tEMPTY], [tEMPTY, tEMPTY, tEMPTY], [tEMPTY, tEMPTY, tEMPTY]]"
    by (simp add: wf_board_def)
  have r: "wf_board 8 GameBoard"
    by code_simp
  have start: "GameBoard ! 3 ! 3 \<noteq> EMPTY"
    by code_simp
  show ?thesis
    using t r start
      owned_cells_never_emptied [of
        "[[tX, tEMPTY, tEMPTY], [tEMPTY, tEMPTY, tEMPTY], [tEMPTY, tEMPTY, tEMPTY]]"
        "[(PlayerO, Move 0 0), (PlayerO, Move 1 1)]"
        GameBoard "[(PlayerBLACK, Move 2 3), (PlayerWHITE, Move 2 2)]"]
    by simp
qed

section \<open>The loops over \<open>try_index\<close>\<close>

lemma raises_IncorrectMoveE:
  assumes "raises_IncorrectMove e"
  obtains why where "e = Some (IncorrectMove why)"
  using assms by (auto simp: raises_IncorrectMove_def split: option.splits exn.splits)

lemma t_attempt_raises: "t_attempt b cur r = (b', Some e) \<Longrightarrow> b' = b"
  by (auto simp: t_attempt_def dest: t_apply_move_raises split: sum.splits pyvalue.splits)

lemma r_attempt_IncorrectMove: "r_attempt b cur r = (b', Some (IncorrectMove why)) \<Longrightarrow> b' = b"
  by (auto simp: r_attempt_def dest: apply_move_IncorrectMove split: sum.splits pyvalue.splits)

lemma t_tries_again:
  assumes "try_index < INCORRECT_MOVE_TRIES_LIMIT"
    and "snd (t_attempt b cur (player n)) = Some (IncorrectMove why)"
  shows "t_tries player cur try_index b n logged
    = t_tries player cur (try_index + 1) b (Suc n) (logged @ [why])"
proof -
  obtain b' where "t_attempt b cur (player n) = (b', Some (IncorrectMove why))"
    using assms(2) by (cases "t_attempt b cur (player n)") simp
  moreover from this have "b' = b" by (rule t_attempt_raises)
  ultimately show ?thesis
    using assms(1) by (subst t_tries.simps) simp
qed

lemma t_tries_exhausted:
  "\<not> try_index < INCORRECT_MOVE_TRIES_LIMIT
   \<Longrightarrow> t_tries player cur try_index b n logged
       = \<lparr>board_now = b, solicited = n, reported = logged, ending = Exhausted\<rparr>"
  by (subst t_tries.simps) simp

lemma t_tries_all_rejected:
  assumes "\<forall>n<4. raises_IncorrectMove (snd (t_attempt b cur (player n)))"
  shows "solicited (t_tries player cur 1 b 0 []) = 4
    \<and> ending (t_tries player cur 1 b 0 []) = Exhausted
    \<and> board_now (t_tries player cur 1 b 0 []) = b"
proof -
  have "raises_IncorrectMove (snd (t_attempt b cur (player 0)))"
    and "raises_IncorrectMove (snd (t_attempt b cur (player (Suc 0))))"
    and "raises_IncorrectMove (snd (t_attempt b cur (player (Suc (Suc 0)))))"
    and "raises_IncorrectMove (snd (t_attempt b cur (player (Suc (Suc (Suc 0))))))"
    using assms by simp_all
  then obtain w0 w1 w2 w3
    where w0: "snd (t_attempt b cur (player 0)) = Some (IncorrectMove w0)"
      and w1: "snd (t_attempt b cur (player (Suc 0))) = Some (IncorrectMove w1)"
      and w2: "snd (t_attempt b cur (player (Suc (Suc 0)))) = Some (IncorrectMove w2)"
      and w3: "snd (t_attempt b cur (player (Suc (Suc (Suc 0))))) = Some (IncorrectMove w3)"
    by (elim raises_IncorrectMoveE) blast
  have "t_tries player cur 1 b 0 [] = t_tries player cur 2 b 1 [w0]"
    using t_tries_again [where player = player and n = 0 and try_index = 1 and logged = "[]", OF _ w0]
    by (simp add: INCORRECT_MOVE_TRIES_LIMIT_def)
  also have "\<dots> = t_tries player cur 3 b 2 [w0, w1]"
    using t_tries_again [where player = player and n = 1 and try_index = 2 and logged = "[w0]"] w1
    by (simp add: INCORRECT_MOVE_TRIES_LIMIT_def numeral_2_eq_2)
  also have "\<dots> = t_tries player cur 4 b 3 [w0, w1, w2]"
    using t_tries_again [where player = player and n = 2 and try_index = 3 and logged = "[w0, w1]"] w2
    by (simp add: INCORRECT_MOVE_TRIES_LIMIT_def numeral_2_eq_2 numeral_3_eq_3)
  also have "\<dots> = t_tries player cur 5 b 4 [w0, w1, w2, w3]"
    using t_tries_again [where player = player and n = 3 and try_index = 4 and logged = "[w0, w1, w2]"] w3
    by (simp add: INCORRECT_MOVE_TRIES_LIMIT_def numeral_3_eq_3 eval_nat_numeral)
  finally have "t_tries player cur 1 b 0 [] = t_tries player cur 5 b 4 [w0, w1, w2, w3]" .
  then show ?thesis
    by (simp add: t_tries_exhausted INCORRECT_MOVE_TRIES_LIMIT_def)
qed


lemma r_tries_again:
  assumes "try_index < INCORRECT_MOVE_TRIES_LIMIT"
    and "snd (r_attempt b cur (player n)) = Some (IncorrectMove why)"
  shows "r_tries player cur try_index b n logged
    = r_tries player cur (try_index + 1) b (Suc n) (logged @ [why])"
proof -
  obtain b' where "r_attempt b cur (player n) = (b', Some (IncorrectMove why))"
    using assms(2) by (cases "r_attempt b cur (player n)") simp
  moreover from this have "b' = b" by (rule r_attempt_IncorrectMove)
  ultimately show ?thesis
    using assms(1) by (subst r_tries.simps) simp
qed

lemma r_tries_exhausted:
  "\<not> try_index < INCORRECT_MOVE_TRIES_LIMIT
   \<Longrightarrow> r_tries player cur try_index b n logged
       = \<lparr>board_now = b, solicited = n, reported = logged, ending = Exhausted\<rparr>"
  by (subst r_tries.simps) simp

lemma r_tries_all_rejected:
  assumes "\<forall>n<4. raises_IncorrectMove (snd (r_attempt b cur (player n)))"
  shows "solicited (r_tries player cur 1 b 0 []) = 4
    \<and> ending (r_tries player cur 1 b 0 []) = Exhausted
    \<and> board_now (r_tries player cur 1 b 0 []) = b"
proof -
  have "raises_IncorrectMove (snd (r_attempt b cur (player 0)))"
    and "raises_IncorrectMove (snd (r_attempt b cur (player (Suc 0))))"
    and "raises_IncorrectMove (snd (r_attempt b cur (player (Suc (Suc 0)))))"
    and "raises_IncorrectMove (snd (r_attempt b cur (player (Suc (Suc (Suc 0))))))"
    using assms by simp_all
  then obtain w0 w1 w2 w3
    where w0: "snd (r_attempt b cur (player 0)) = Some (IncorrectMove w0)"
      and w1: "snd (r_attempt b cur (player (Suc 0))) = Some (IncorrectMove w1)"
      and w2: "snd (r_attempt b cur (player (Suc (Suc 0)))) = Some (IncorrectMove w2)"
      and w3: "snd (r_attempt b cur (player (Suc (Suc (Suc 0))))) = Some (IncorrectMove w3)"
    by (elim raises_IncorrectMoveE) blast
  have "r_tries player cur 1 b 0 [] = r_tries player cur 2 b 1 [w0]"
    using r_tries_again [where player = player and n = 0 and try_index = 1 and logged = "[]", OF _ w0]
    by (simp add: INCORRECT_MOVE_TRIES_LIMIT_def)
  also have "\<dots> = r_tries player cur 3 b 2 [w0, w1]"
    using r_tries_again [where player = player and n = 1 and try_index = 2 and logged = "[w0]"] w1
    by (simp add: INCORRECT_MOVE_TRIES_LIMIT_def numeral_2_eq_2)
  also have "\<dots> = r_tries player cur 4 b 3 [w0, w1, w2]"
    using r_tries_again [where player = player and n = 2 and try_index = 3 and logged = "[w0, w1]"] w2
    by (simp add: INCORRECT_MOVE_TRIES_LIMIT_def numeral_2_eq_2 numeral_3_eq_3)
  also have "\<dots> = r_tries player cur 5 b 4 [w0, w1, w2, w3]"
    using r_tries_again [where player = player and n = 3 and try_index = 4 and logged = "[w0, w1, w2]"] w3
    by (simp add: INCORRECT_MOVE_TRIES_LIMIT_def numeral_3_eq_3 eval_nat_numeral)
  finally have "r_tries player cur 1 b 0 [] = r_tries player cur 5 b 4 [w0, w1, w2, w3]" .
  then show ?thesis
    by (simp add: r_tries_exhausted INCORRECT_MOVE_TRIES_LIMIT_def)
qed

lemma k_attempt_Inl: "k_attempt N r = Inl e \<Longrightarrow> \<exists>why. e = IncorrectMove why"
  by (auto simp: k_attempt_def k_inner_def split: sum.splits option.splits bool.splits pyvalue.splits)

lemma k_loop_again:
  assumes "try_index < INCORRECT_MOVE_TRIES_LIMIT"
    and "k_attempt N (player n) = Inl (IncorrectMove why)"
  shows "k_safe_move_loop N player try_index n logged
    = k_safe_move_loop N player (try_index + 1) (Suc n) (logged @ [why])"
  using assms by (subst k_safe_move_loop.simps) simp

lemma k_loop_exhausted:
  "\<not> try_index < INCORRECT_MOVE_TRIES_LIMIT
   \<Longrightarrow> k_safe_move_loop N player try_index n logged
       = \<lparr>returned = -1, asked = n, messages = logged, escaped = None\<rparr>"
  by (subst k_safe_move_loop.simps) simp

lemma k_safe_move_all_rejected:
  assumes "\<forall>n<4. isl (k_attempt N (player n))"
  shows "\<exists>w0 w1 w2 w3. k_safe_move N player
    = \<lparr>returned = -1, asked = 4, messages = [w0, w1, w2, w3], escaped = None\<rparr>"
proof -
  have "isl (k_attempt N (player 0))" and "isl (k_attempt N (player (Suc 0)))"
    and "isl (k_attempt N (player (Suc (Suc 0))))"
    and "isl (k_attempt N (player (Suc (Suc (Suc 0)))))"
    using assms by simp_all
  then obtain w0 w1 w2 w3
    where w0: "k_attempt N (player 0) = Inl (IncorrectMove w0)"
      and w1: "k_attempt N (player (Suc 0)) = Inl (IncorrectMove w1)"
      and w2: "k_attempt N (player (Suc (Suc 0))) = Inl (IncorrectMove w2)"
      and w3: "k_attempt N (player (Suc (Suc (Suc 0)))) = Inl (IncorrectMove w3)"
    by (metis k_attempt_Inl isl_def)
  have "k_safe_move_loop N player 1 0 [] = k_safe_move_loop N player 2 1 [w0]"
    using k_loop_again [where player = player and n = 0 and try_index = 1 and logged = "[]", OF _ w0]
    by (simp add: INCORRECT_MOVE_TRIES_LIMIT_def)
  also have "\<dots> = k_safe_move_loop N player 3 2 [w0, w1]"
    using k_loop_again [where player = player and n = 1 and try_index = 2 and logged = "[w0]"] w1
    by (simp add: INCORRECT_MOVE_TRIES_LIMIT_def numeral_2_eq_2)
  also have "\<dots> = k_safe_move_loop N player 4 3 [w0, w1, w2]"
    using k_loop_again [where player = player and n = 2 and try_index = 3 and logged = "[w0, w1]"] w2
    by (simp add: INCORRECT_MOVE_TRIES_LIMIT_def numeral_2_eq_2 numeral_3_eq_3)
  also have "\<dots> = k_safe_move_loop N player 5 4 [w0, w1, w2, w3]"
    using k_loop_again [where player = player and n = 3 and try_index = 4 and logged = "[w0, w1, w2]"] w3
    by (simp add: INCORRECT_MOVE_TRIES_LIMIT_def numeral_3_eq_3 eval_nat_numeral)
  finally show ?thesis
    by (simp add: k_safe_move_def k_loop_exhausted INCORRECT_MOVE_TRIES_LIMIT_def)
qed

lemma t_attempt_not_a_Move:
  "\<forall>m. v \<noteq> MoveV m \<Longrightarrow> t_attempt b cur (Returns v) = (b, Some (IncorrectMove NotAMove))"
  by (cases v) (auto simp: t_attempt_def safe_run_def)

lemma r_attempt_not_a_Move:
  "\<forall>m. v \<noteq> MoveV m \<Longrightarrow> r_attempt b cur (Returns v) = (b, Some (IncorrectMove NotAMove))"
  by (cases v) (auto simp: r_attempt_def safe_run_def)

text \<open>
  In the board games the exhausted loop makes the opponent the winner and leaves the
  board as it was.
\<close>

lemma t_make_one_move_forfeit:
  assumes "\<forall>n<4. raises_IncorrectMove (snd (t_attempt (t_board g) (t_current_move g)
      ((if t_current_move g = PlayerX then x_player else o_player) n)))"
  shows "t_winner (fst (t_make_one_move x_player o_player g))
      = Some (if t_current_move g = PlayerX then WinnerO else WinnerX)
    \<and> solicited (fst (snd (t_make_one_move x_player o_player g))) = 4
    \<and> t_board (fst (t_make_one_move x_player o_player g)) = t_board g"
proof (cases "t_current_move g")
  case PlayerX
  with assms t_tries_all_rejected [of "t_board g" PlayerX x_player] show ?thesis
    by (simp add: t_make_one_move_def Let_def tPlayerType_inverse_def tPlayerType_of_def
        tWinner_of_def)
next
  case PlayerO
  with assms t_tries_all_rejected [of "t_board g" PlayerO o_player] show ?thesis
    by (simp add: t_make_one_move_def Let_def tPlayerType_inverse_def tPlayerType_of_def
        tWinner_of_def)
qed

lemma r_make_one_move_forfeit:
  assumes "has_player_correct_move (r_board g) (r_current_move g) = Some True"
    and "\<forall>n<4. raises_IncorrectMove (snd (r_attempt (r_board g) (r_current_move g)
      ((if r_current_move g = PlayerBLACK then black_player else white_player) n)))"
  shows "r_winner (fst (r_make_one_move black_player white_player g))
      = Some (if r_current_move g = PlayerBLACK then WinnerWHITE else WinnerBLACK)
    \<and> solicited (fst (snd (r_make_one_move black_player white_player g))) = 4
    \<and> r_board (fst (r_make_one_move black_player white_player g)) = r_board g"
proof (cases "r_current_move g")
  case PlayerBLACK
  with assms r_tries_all_rejected [of "r_board g" PlayerBLACK black_player] show ?thesis
    by (simp add: r_make_one_move_def Let_def PlayerType_inverse_def PlayerType_of_def
        Winner_of_def)
next
  case PlayerWHITE
  with assms r_tries_all_rejected [of "r_board g" PlayerWHITE white_player] show ?thesis
    by (simp add: r_make_one_move_def Let_def PlayerType_inverse_def PlayerType_of_def
        Winner_of_def)
qed

text \<open>
  C2. The claim: a player whose every response is invalid has lost after exactly five
  tries. The loops start with \<open>try_index = 1\<close> and run while
  \<open>try_index < INCORRECT_MOVE_TRIES_LIMIT\<close>, which is 5: in each of the three modules a
  player whose first four responses end in \<open>IncorrectMove\<close> is asked four times, then
  the loop is exhausted (the numeric game records \<open>-1\<close>). A fifth response is never asked
  for.
\<close>

theorem tries_exhausted_after_four_calls:
  "((\<forall>n<4. raises_IncorrectMove (snd (t_attempt tb tcur (tp n)))) \<longrightarrow>
      solicited (t_tries tp tcur 1 tb 0 []) = 4
      \<and> ending (t_tries tp tcur 1 tb 0 []) = Exhausted)
   \<and> ((\<forall>n<4. raises_IncorrectMove (snd (r_attempt rb rcur (rp n)))) \<longrightarrow>
      solicited (r_tries rp rcur 1 rb 0 []) = 4
      \<and> ending (r_tries rp rcur 1 rb 0 []) = Exhausted)
   \<and> ((\<forall>n<4. isl (k_attempt N (kp n))) \<longrightarrow>
      asked (k_safe_move N kp) = 4 \<and> returned (k_safe_move N kp) = -1)"
proof (intro conjI impI)
  assume "\<forall>n<4. isl (k_attempt N (kp n))"
  then obtain w0 w1 w2 w3 where "k_safe_move N kp
    = \<lparr>returned = -1, asked = 4, messages = [w0, w1, w2, w3], escaped = None\<rparr>"
    using k_safe_move_all_rejected by blast
  then show "asked (k_safe_move N kp) = 4" and "returned (k_safe_move N kp) = -1"
    by simp_all
qed (simp_all add: t_tries_all_rejected r_tries_all_rejected)

theorem tries_exhausted_after_four_calls_witness:
  "raises_IncorrectMove (snd (t_attempt tGameBoard PlayerX (Returns (MoveV (Move 7 7)))))
   \<and> solicited (t_tries (\<lambda>n. Returns (MoveV (Move 7 7))) PlayerX 1 tGameBoard 0 []) = 4
   \<and> ending (t_tries (\<lambda>n. Returns (MoveV (Move 7 7))) PlayerX 1 tGameBoard 0 []) = Exhausted
   \<and> raises_IncorrectMove (snd (r_attempt GameBoard PlayerBLACK (Returns (MoveV (Move 9 9)))))
   \<and> solicited (r_tries (\<lambda>n. Returns (MoveV (Move 9 9))) PlayerBLACK 1 GameBoard 0 []) = 4
   \<and> isl (k_attempt 3 (Returns (IntV 0)))
   \<and> asked (k_safe_move 3 (\<lambda>n. Returns (IntV 0))) = 4
   \<and> returned (k_safe_move 3 (\<lambda>n. Returns (IntV 0))) = -1"
proof -
  have t: "raises_IncorrectMove (snd (t_attempt tGameBoard PlayerX (Returns (MoveV (Move 7 7)))))"
    by (simp add: raises_IncorrectMove_def t_attempt_def safe_run_def t_apply_move_def tsize_def)
  have r: "raises_IncorrectMove (snd (r_attempt GameBoard PlayerBLACK (Returns (MoveV (Move 9 9)))))"
    by (simp add: raises_IncorrectMove_def r_attempt_def safe_run_def apply_move_def
        is_valid_coordinates_def rsize_def)
  have k: "isl (k_attempt 3 (Returns (IntV 0)))"
    by (simp add: k_attempt_def k_inner_def safe_run_def format_d_def out_of_range_def)
  show ?thesis
    using t r k
      tries_exhausted_after_four_calls [of tGameBoard PlayerX "\<lambda>n. Returns (MoveV (Move 7 7))"
        GameBoard PlayerBLACK "\<lambda>n. Returns (MoveV (Move 9 9))" 3 "\<lambda>n. Returns (IntV 0)"]
    by simp
qed

text \<open>
  C7. The claim: the type of a response is checked before its range, so a response of
  the wrong type that is also out of range is reported as of the wrong type. The board
  games do so (\<open>t_attempt_not_a_Move\<close>, \<open>r_attempt_not_a_Move\<close>). \<open>_safe_move\<close> of the
  numeric game tests the range first and \<open>isinstance(move, int)\<close> after it: with three
  players the float 7.5 is reported as a bad value (the message of the range test,
  wrapped by the handler around it), on each of the four tries, and only a float in
  range such as 2.5 is reported as not an \<open>int\<close>.
\<close>

theorem k_attempt_reports_range_for_float:
  "k_attempt 3 (Returns (FloatV (Finite (15 / 2))))
     = Inl (IncorrectMove (MoveFailed (IncorrectMove BadValue)))
   \<and> k_attempt 3 (Returns (FloatV (Finite (5 / 2)))) = Inl (IncorrectMove NotAnInt)
   \<and> messages (k_safe_move 3 (\<lambda>n. Returns (FloatV (Finite (15 / 2)))))
     = [MoveFailed (IncorrectMove BadValue), MoveFailed (IncorrectMove BadValue),
        MoveFailed (IncorrectMove BadValue), MoveFailed (IncorrectMove BadValue)]"
  by (simp add: k_safe_move_def k_safe_move_loop.simps INCORRECT_MOVE_TRIES_LIMIT_def
      k_attempt_def k_inner_def safe_run_def format_d_def out_of_range_def)

section \<open>Scores of the numeric game\<close>

lemma first_counted_once_None:
  "first_counted_once ps rnd = None \<Longrightarrow> (i, v) \<in> set ps \<Longrightarrow> count_list rnd v \<noteq> 1"
  by (induction ps rnd rule: first_counted_once.induct) (auto split: if_splits)

lemma first_counted_once_Some:
  "first_counted_once ps rnd = Some (i, v) \<Longrightarrow> sorted (map snd ps)
   \<Longrightarrow> (i, v) \<in> set ps \<and> count_list rnd v = 1
       \<and> (\<forall>(j, w)\<in>set ps. count_list rnd w = 1 \<longrightarrow> v \<le> w)"
  by (induction ps rnd rule: first_counted_once.induct) (auto split: if_splits)

lemma counted_once_index:
  "count_list xs x = 1 \<Longrightarrow> i < length xs \<Longrightarrow> j < length xs \<Longrightarrow> xs ! i = x \<Longrightarrow> xs ! j = x
   \<Longrightarrow> i = j"
proof (induction xs arbitrary: i j)
  case Nil
  then show ?case by simp
next
  case (Cons a xs)
  show ?case
  proof (cases "a = x")
    case True
    with Cons.prems(1) have "x \<notin> set xs" by (simp add: count_list_0_iff)
    then have "i = 0" and "j = 0"
      using Cons.prems by (auto simp: nth_Cons' split: if_splits)
    then show ?thesis by simp
  next
    case False
    with Cons.prems have "0 < i" and "0 < j" by (auto simp: nth_Cons' split: if_splits)
    then obtain i' j' where "i = Suc i'" and "j = Suc j'" by (metis Suc_pred)
    with Cons.IH [of i' j'] Cons.prems False show ?thesis by simp
  qed
qed

lemma wins_round_unique: "wins_round rnd i \<Longrightarrow> wins_round rnd j \<Longrightarrow> i = j"
proof -
  assume i: "wins_round rnd i" and j: "wins_round rnd j"
  then have "rnd ! i \<le> rnd ! j" and "rnd ! j \<le> rnd ! i"
    by (auto simp: wins_round_def list_all_length)
  then have "rnd ! i = rnd ! j" by simp
  with i j show "i = j"
    by (auto simp: wins_round_def intro: counted_once_index)
qed

lemma score_round_None:
  assumes "first_counted_once (sort_key snd (enumerate 0 rnd)) rnd = None"
  shows "\<not> wins_round rnd i"
proof
  assume w: "wins_round rnd i"
  then have "(i, rnd ! i) \<in> set (sort_key snd (enumerate 0 rnd))"
    by (simp add: wins_round_def in_set_enumerate_eq)
  with assms have "count_list rnd (rnd ! i) \<noteq> 1" by (rule first_counted_once_None)
  with w show False by (simp add: wins_round_def)
qed

lemma score_round_Some:
  assumes "first_counted_once (sort_key snd (enumerate 0 rnd)) rnd = Some (i, v)"
  shows "wins_round rnd i \<and> v = rnd ! i"
proof -
  have "sorted (map snd (sort_key snd (enumerate 0 rnd)))" by (rule sorted_sort_key)
  with assms have in_ps: "(i, v) \<in> set (sort_key snd (enumerate 0 rnd))"
    and once: "count_list rnd v = 1"
    and least: "\<forall>(j, w)\<in>set (sort_key snd (enumerate 0 rnd)). count_list rnd w = 1 \<longrightarrow> v \<le> w"
    using first_counted_once_Some by blast+
  from in_ps have i: "i < length rnd" and v: "v = rnd ! i"
    by (auto simp: in_set_enumerate_eq)
  have "count_list rnd (rnd ! j) = 1 \<longrightarrow> v \<le> rnd ! j" if "j < length rnd" for j
  proof -
    from that have "(j, rnd ! j) \<in> set (sort_key snd (enumerate 0 rnd))"
      by (simp add: in_set_enumerate_eq)
    with least show ?thesis by blast
  qed
  with i v once show ?thesis
    by (simp add: wins_round_def list_all_length)
qed

lemma score_round_eq:
  assumes "length scores = length rnd"
  shows "score_round scores rnd
    = map (\<lambda>i. scores ! i + (if wins_round rnd i then rnd ! i else 0)) [0..<length scores]"
proof (cases "first_counted_once (sort_key snd (enumerate 0 rnd)) rnd")
  case None
  then have "\<not> wins_round rnd i" for i by (rule score_round_None)
  with None show ?thesis by (simp add: score_round_def map_nth)
next
  case (Some a)
  obtain i v where a: "a = (i, v)" by (cases a)
  with Some have w: "wins_round rnd i" and v: "v = rnd ! i"
    using score_round_Some by blast+
  have others: "\<not> wins_round rnd j" if "j \<noteq> i" for j
    using that w wins_round_unique by blast
  have "scores[i := scores ! i + v]
    = map (\<lambda>i. scores ! i + (if wins_round rnd i then rnd ! i else 0)) [0..<length scores]"
  proof (rule nth_equalityI)
    show "length (scores[i := scores ! i + v])
      = length (map (\<lambda>i. scores ! i + (if wins_round rnd i then rnd ! i else 0))
          [0..<length scores])"
      by simp
  next
    fix k
    assume "k < length (scores[i := scores ! i + v])"
    then have k: "k < length scores" by simp
    show "scores[i := scores ! i + v] ! k
      = map (\<lambda>i. scores ! i + (if wins_round rnd i then rnd ! i else 0)) [0..<length scores] ! k"
    proof (cases "k = i")
      case True
      with w v k show ?thesis by simp
    next
      case False
      with others [of k] k show ?thesis by simp
    qed
  qed
  with Some a show ?thesis by (simp add: score_round_def)
qed

lemma length_score_round: "length (score_round scores rnd) = length scores"
  by (simp add: score_round_def split: option.splits)

lemma foldl_score_round:
  "list_all (\<lambda>rnd. length rnd = length scores) history \<Longrightarrow> p < length scores
   \<Longrightarrow> foldl score_round scores history ! p
       = scores ! p + sum_list (map (\<lambda>rnd. if wins_round rnd p then rnd ! p else 0) history)"
proof (induction history arbitrary: scores)
  case Nil
  then show ?case by simp
next
  case (Cons rnd history)
  from Cons.prems have len: "length scores = length rnd" by simp
  have "foldl score_round (score_round scores rnd) history ! p
    = score_round scores rnd ! p
      + sum_list (map (\<lambda>rnd. if wins_round rnd p then rnd ! p else 0) history)"
    using Cons.prems by (intro Cons.IH) (simp_all add: length_score_round)
  moreover have "score_round scores rnd ! p
    = scores ! p + (if wins_round rnd p then rnd ! p else 0)"
    using Cons.prems(2) by (simp add: score_round_eq [OF len])
  ultimately show ?case by simp
qed

lemma wins_round_exists:
  assumes "v \<in> set rnd" and "count_list rnd v = 1"
  shows "\<exists>i. wins_round rnd i"
proof (cases "first_counted_once (sort_key snd (enumerate 0 rnd)) rnd")
  case None
  from assms(1) obtain i where "i < length rnd" and "rnd ! i = v"
    by (auto simp: in_set_conv_nth)
  then have "(i, v) \<in> set (sort_key snd (enumerate 0 rnd))"
    by (auto simp: in_set_enumerate_eq)
  with None have "count_list rnd v \<noteq> 1" by (rule first_counted_once_None)
  with assms(2) show ?thesis by simp
next
  case (Some a)
  then show ?thesis using score_round_Some by (cases a) blast
qed

text \<open>
  C6. For every recorded history, the score of a player is the sum, over the rounds, of
  the player's own value in the rounds the player wins and of nothing in the others,
  where the winner of a round is the player with the lowest value that occurs exactly
  once. A round has at most one winner, and it has one as soon as some value occurs
  exactly once; so a round scores for exactly that player, and for nobody when no value
  is unique. In the round 3, 3, 5 the player of the 5 gains 5 and the others nothing.
\<close>

theorem lowest_unique_move_scores:
  "(list_all (\<lambda>round'. length round' = n) history \<and> p < n \<longrightarrow>
      round_scores n history ! p
        = sum_list (map (\<lambda>round'. if wins_round round' p then round' ! p else 0) history))
   \<and> (wins_round round' i \<and> wins_round round' j \<longrightarrow> i = j)
   \<and> ((\<exists>v\<in>set round'. count_list round' v = 1) \<longrightarrow> (\<exists>i. wins_round round' i))"
proof (intro conjI impI)
  assume "list_all (\<lambda>round'. length round' = n) history \<and> p < n"
  then show "round_scores n history ! p
        = sum_list (map (\<lambda>round'. if wins_round round' p then round' ! p else 0) history)"
    using foldl_score_round [of "replicate n 0" history p] by (simp add: round_scores_def)
next
  assume "wins_round round' i \<and> wins_round round' j"
  then show "i = j" using wins_round_unique by blast
next
  assume "\<exists>v\<in>set round'. count_list round' v = 1"
  then show "\<exists>i. wins_round round' i" using wins_round_exists by blast
qed

theorem lowest_unique_move_scores_witness:
  "round_scores 3 [[3, 3, 5]] ! 0 = 0 \<and> round_scores 3 [[3, 3, 5]] ! 1 = 0
   \<and> round_scores 3 [[3, 3, 5]] ! 2 = 5 \<and> wins_round [3, 3, 5] 2 \<and> \<not> wins_round [3, 3, 5] 0"
proof -
  have w: "wins_round [3, 3, 5] 2" "\<not> wins_round [3, 3, 5] 0" "\<not> wins_round [3, 3, 5] 1"
    by (simp_all add: wins_round_def)
  show ?thesis
    using w lowest_unique_move_scores [of 3 "[[3, 3, 5]]" 0]
      lowest_unique_move_scores [of 3 "[[3, 3, 5]]" 1]
      lowest_unique_move_scores [of 3 "[[3, 3, 5]]" 2]
    by simp
qed

text \<open>
  C5. The claim: a player whose tries are exhausted loses the round as if no value had
  been handed in: the player's score stays and the others are scored by the usual
  rule. \<open>_safe_move\<close> returns \<open>-1\<close>, which \<open>_find_winner\<close> treats as a move like any
  other: of three players the first answers 0 every time, the others 2 and 3; the round
  is recorded as \<open>[-1, 2, 3]\<close>, the lowest move counted once is \<open>-1\<close>, so the first
  player's score goes down by one and the player of the 2 gets nothing (the moves 2 and
  3 alone would give 2 points to the player of the 2). The round does not set a winner.
\<close>

theorem forfeit_is_scored_as_lowest_move:
  "k_make_one_move [\<lambda>n. Returns (IntV 0), \<lambda>n. Returns (IntV 2), \<lambda>n. Returns (IntV 3)]
      \<lparr>k_history = [], k_move_number = 0, k_winner = None\<rparr>
     = \<lparr>k_history = [[-1, 2, 3]], k_move_number = 1, k_winner = None\<rparr>
   \<and> round_scores 3 [[-1, 2, 3]] = [-1, 0, 0]
   \<and> round_scores 2 [[2, 3]] = [2, 0]"
  by code_simp

section \<open>Copies handed to players\<close>

lemma alloc_lists_eq:
  "alloc_lists h rows = (h @ map ListObj rows, map Ref [length h..<length h + length rows])"
proof (induction rows arbitrary: h)
  case Nil
  then show ?case by simp
next
  case (Cons items rows)
  have "[length h..<length h + Suc (length rows)]
    = length h # [Suc (length h)..<Suc (length h) + length rows]"
    by (simp add: upt_rec)
  with Cons [of "h @ [ListObj items]"] show ?case by (simp add: alloc_def)
qed

lemma new_board_object_eq:
  "new_board_object sz cells h
   = (h @ map ListObj (map (map Enum) cells)
        @ [ListObj (map Ref [length h..<length h + length cells]),
           BoardObj (Num sz) (Ref (length h + length cells))],
      Suc (length h + length cells))"
  by (simp add: new_board_object_def alloc_lists_eq alloc_def)

lemma lookup_eq_Some: "lookup h a = Some ob \<longleftrightarrow> a < length h \<and> h ! a = ob"
  by (auto simp: lookup_def)

lemma lookup_mono: "lookup h a = Some ob \<Longrightarrow> lookup (h @ ext) a = Some ob"
  by (simp add: lookup_eq_Some nth_append)

lemma rows_of_append: "rows_of h rows = Some m \<Longrightarrow> rows_of (h @ ext) rows = Some m"
proof (induction rows arbitrary: m)
  case Nil
  then show ?case by simp
next
  case (Cons v rows)
  from Cons.prems obtain r items m' where v: "v = Ref r"
    and r: "lookup h r = Some (ListObj items)" and m': "rows_of h rows = Some m'"
    and m: "m = items # m'"
    by (auto split: hval.splits option.splits obj.splits)
  from r have "lookup (h @ ext) r = Some (ListObj items)" by (rule lookup_mono)
  moreover from m' have "rows_of (h @ ext) rows = Some m'" by (rule Cons.IH)
  ultimately show ?case by (simp add: v m)
qed

lemma matrix_of_append: "matrix_of h l = Some m \<Longrightarrow> matrix_of (h @ ext) l = Some m"
proof -
  assume a: "matrix_of h l = Some m"
  then obtain rows where l: "lookup h l = Some (ListObj rows)" and rows: "rows_of h rows = Some m"
    by (auto simp: matrix_of_def split: option.splits obj.splits)
  from l have "lookup (h @ ext) l = Some (ListObj rows)" by (rule lookup_mono)
  moreover from rows have "rows_of (h @ ext) rows = Some m" by (rule rows_of_append)
  ultimately show ?thesis by (simp add: matrix_of_def)
qed

lemma board_of_append: "board_of h self = Some m \<Longrightarrow> board_of (h @ ext) self = Some m"
proof -
  assume a: "board_of h self = Some m"
  then obtain sz l where self: "lookup h self = Some (BoardObj sz (Ref l))"
    and l: "matrix_of h l = Some m"
    by (auto simp: board_of_def split: option.splits obj.splits hval.splits)
  from self have "lookup (h @ ext) self = Some (BoardObj sz (Ref l))" by (rule lookup_mono)
  moreover from l have "matrix_of (h @ ext) l = Some m" by (rule matrix_of_append)
  ultimately show ?thesis by (simp add: board_of_def)
qed

lemma values_of_Enum: "values_of val (map Enum cs) = Some (map (\<lambda>c. Num (val c)) cs)"
  by (induction cs) simp_all

lemma copy_rows_eq:
  "rows_of h rows = Some m \<Longrightarrow> list_all2 (\<lambda>items new. conv items = Some new) m news
   \<Longrightarrow> copy_rows conv (h @ ext) rows
       = Some (h @ ext @ map ListObj news,
               map Ref [length h + length ext..<length h + length ext + length news])"
proof (induction rows arbitrary: m news ext)
  case Nil
  then show ?case by simp
next
  case (Cons v rows)
  from Cons.prems(1) obtain r items m' where v: "v = Ref r"
    and r: "lookup h r = Some (ListObj items)" and m': "rows_of h rows = Some m'"
    and m: "m = items # m'"
    by (auto split: hval.splits option.splits obj.splits)
  from Cons.prems(2) m obtain new news' where news: "news = new # news'"
    and new: "conv items = Some new"
    and rest: "list_all2 (\<lambda>items new. conv items = Some new) m' news'"
    by (auto simp: list_all2_Cons1)
  have "copy_rows conv (h @ (ext @ [ListObj new])) rows
    = Some (h @ (ext @ [ListObj new]) @ map ListObj news',
            map Ref [length h + length (ext @ [ListObj new])
                     ..<length h + length (ext @ [ListObj new]) + length news'])"
    using m' rest by (rule Cons.IH)
  moreover have "lookup (h @ ext) r = Some (ListObj items)"
    using r by (rule lookup_mono)
  moreover have "[length h + length ext..<length h + length ext + Suc (length news')]
    = (length h + length ext) # [Suc (length h + length ext)..<Suc (length h + length ext) + length news']"
    by (simp add: upt_rec)
  ultimately show ?case
    by (simp add: v new news alloc_def)
qed

lemma rows_of_fresh:
  "rows_of (pre @ map ListObj news @ post) (map Ref [length pre..<length pre + length news])
   = Some news"
proof (induction news arbitrary: pre)
  case Nil
  then show ?case by simp
next
  case (Cons n news)
  have "rows_of ((pre @ [ListObj n]) @ map ListObj news @ post)
          (map Ref [length (pre @ [ListObj n])..<length (pre @ [ListObj n]) + length news])
        = Some news"
    by (rule Cons.IH)
  moreover have "[length pre..<length pre + Suc (length news)]
    = length pre # [Suc (length pre)..<Suc (length pre) + length news]"
    by (simp add: upt_rec)
  ultimately show ?case
    by (simp add: lookup_def nth_append)
qed


lemma refs_in_Ref: "refs_in (map Ref xs) = xs"
  by (induction xs) simp_all

lemma refs_in_Enum: "refs_in (map Enum cs) = []"
  by (induction cs) simp_all

lemma values_of_no_refs: "values_of val items = Some new \<Longrightarrow> refs_in new = []"
  by (induction items arbitrary: new) (auto split: hval.splits)

lemma plain_items_no_refs: "plain_items items = Some new \<Longrightarrow> refs_in new = []"
  by (induction items arbitrary: new) (auto split: hval.splits)

lemma copy_rows_fresh:
  assumes "copy_rows conv h rows = Some (h2, refs)"
    and "\<forall>items new. conv items = Some new \<longrightarrow> refs_in new = []"
  shows "\<exists>news. h2 = h @ map ListObj news
    \<and> refs = map Ref [length h..<length h + length news]
    \<and> (\<forall>new\<in>set news. refs_in new = [])"
  using assms(1)
proof (induction rows arbitrary: h h2 refs)
  case Nil
  then show ?case by simp
next
  case (Cons v rows)
  from Cons.prems obtain r items new h3 refs'
    where new: "conv items = Some new"
      and rest: "copy_rows conv (h @ [ListObj new]) rows = Some (h3, refs')"
      and h2: "h2 = h3" and refs: "refs = Ref (length h) # refs'"
    by (auto simp: alloc_def split: hval.splits option.splits obj.splits)
  from Cons.IH [OF rest] obtain news
    where news: "h3 = (h @ [ListObj new]) @ map ListObj news"
      "refs' = map Ref [length (h @ [ListObj new])..<length (h @ [ListObj new]) + length news]"
      "\<forall>new\<in>set news. refs_in new = []"
    by blast
  have "[length h..<length h + Suc (length news)]
    = length h # [Suc (length h)..<Suc (length h) + length news]"
    by (simp add: upt_rec)
  with news new assms(2) h2 refs
  have "h2 = h @ map ListObj (new # news)
    \<and> refs = map Ref [length h..<length h + length (new # news)]
    \<and> (\<forall>x\<in>set (new # news). refs_in x = [])"
    by simp
  then show ?case by blast
qed

lemma confined_extension:
  assumes "\<forall>ob\<in>set ext. refs_of ob \<subseteq> {length h..<length h + length ext}"
    and "length h \<le> c" and "c < length h + length ext"
  shows "confined (length h) {c} (h @ ext)"
  using assms by (auto simp: confined_def nth_append)

lemma create_copy_confined:
  assumes "create_copy_for_player val sz cells h self = Some (h', c)"
  shows "confined (length h) {c} h' \<and> take (length h) h' = h"
proof -
  let ?A = "map ListObj (map (map Enum) cells)"
  let ?L1 = "ListObj (map Ref [length h..<length h + length cells])"
  let ?h1 = "h @ ?A @ [?L1, BoardObj (Num sz) (Ref (length h + length cells))]"
  from assms obtain rows h2 refs
    where copy: "copy_rows (values_of val) ?h1 rows = Some (h2, refs)"
      and h': "h' = (h2 @ [ListObj refs])[Suc (length h + length cells)
                   := BoardObj (Num sz) (Ref (length h2))]"
      and c: "c = Suc (length h + length cells)"
    by (auto simp: create_copy_for_player_def new_board_object_eq alloc_def
        split: option.splits obj.splits hval.splits)
  have "\<forall>items new. values_of val items = Some new \<longrightarrow> refs_in new = []"
    using values_of_no_refs by blast
  with copy_rows_fresh [OF copy] obtain news
    where h2: "h2 = ?h1 @ map ListObj news"
      and refs: "refs = map Ref [length ?h1..<length ?h1 + length news]"
      and news: "\<forall>new\<in>set news. refs_in new = []"
    by blast
  let ?ext = "?A @ [?L1, BoardObj (Num sz) (Ref (length h2))] @ map ListObj news @ [ListObj refs]"
  have eq: "h' = h @ ?ext"
    by (simp add: h' h2 list_update_append nth_append)
  have "\<forall>ob\<in>set ?ext. refs_of ob \<subseteq> {length h..<length h + length ?ext}"
    using news by (auto simp: refs_of_def refs_in_Ref refs_in_Enum h2 refs)
  then have "confined (length h) {c} (h @ ?ext)"
    by (rule confined_extension) (simp_all add: c)
  with eq show ?thesis by simp
qed

lemma deepcopy_history_confined:
  assumes "deepcopy_history h a = Some (h', c)"
  shows "confined (length h) {c} h' \<and> take (length h) h' = h"
proof -
  from assms obtain rows h1 refs
    where copy: "copy_rows plain_items h rows = Some (h1, refs)"
      and h': "h' = h1 @ [ListObj refs]" and c: "c = length h1"
    by (auto simp: deepcopy_history_def alloc_def split: option.splits obj.splits if_splits)
  have "\<forall>items new. plain_items items = Some new \<longrightarrow> refs_in new = []"
    using plain_items_no_refs by blast
  with copy_rows_fresh [OF copy] obtain news
    where h1: "h1 = h @ map ListObj news"
      and refs: "refs = map Ref [length h..<length h + length news]"
      and news: "\<forall>new\<in>set news. refs_in new = []"
    by blast
  let ?ext = "map ListObj news @ [ListObj refs]"
  have "\<forall>ob\<in>set ?ext. refs_of ob \<subseteq> {length h..<length h + length ?ext}"
    using news by (auto simp: refs_of_def refs_in_Ref refs)
  then have "confined (length h) {c} (h @ ?ext)"
    by (rule confined_extension) (simp_all add: c h1)
  then show ?thesis by (simp add: h' h1)
qed

lemma agent_confined:
  "agent K h K' h' \<Longrightarrow> confined n K h \<Longrightarrow> confined n K' h' \<and> take n h' = take n h"
proof (induction rule: agent.induct)
  case (nothing K h)
  then show ?case by simp
next
  case (reads K h K' h' a ob)
  then have inv: "confined n K' h'" and same: "take n h' = take n h" by simp_all
  from inv reads.hyps(2) have "n \<le> a" and "a < length h'"
    by (auto simp: confined_def)
  with inv reads.hyps(3) have "refs_of ob \<subseteq> {n..<length h'}"
    by (auto simp: confined_def lookup_def)
  with inv same show ?case by (auto simp: confined_def)
next
  case (writes K h K' h' a ob)
  then have inv: "confined n K' h'" and same: "take n h' = take n h" by simp_all
  from inv writes.hyps(2) have a: "n \<le> a" by (auto simp: confined_def)
  have "confined n K' (h'[a := ob])"
    unfolding confined_def
  proof (intro conjI allI impI)
    show "n \<le> length (h'[a := ob])" using inv by (simp add: confined_def)
    show "K' \<subseteq> {n..<length (h'[a := ob])}" using inv by (simp add: confined_def)
    fix x
    assume x: "n \<le> x \<and> x < length (h'[a := ob])"
    show "refs_of (h'[a := ob] ! x) \<subseteq> {n..<length (h'[a := ob])}"
    proof (cases "x = a")
      case True
      with x writes.hyps(4) inv show ?thesis by (auto simp: confined_def)
    next
      case False
      with x inv show ?thesis by (simp add: confined_def)
    qed
  qed
  moreover have "take n (h'[a := ob]) = take n h" using a same by simp
  ultimately show ?case by simp
next
  case (creates K h K' h' ob)
  then have inv: "confined n K' h'" and same: "take n h' = take n h" by simp_all
  have "confined n (insert (length h') K') (h' @ [ob])"
    unfolding confined_def
  proof (intro conjI allI impI)
    show "n \<le> length (h' @ [ob])" using inv by (simp add: confined_def)
    show "insert (length h') K' \<subseteq> {n..<length (h' @ [ob])}"
      using inv by (auto simp: confined_def)
    fix x
    assume x: "n \<le> x \<and> x < length (h' @ [ob])"
    show "refs_of ((h' @ [ob]) ! x) \<subseteq> {n..<length (h' @ [ob])}"
    proof (cases "x = length h'")
      case True
      with creates.hyps(2) inv show ?thesis by (auto simp: confined_def)
    next
      case False
      with x have less: "x < length h'" by simp
      with x inv have "refs_of (h' ! x) \<subseteq> {n..<length h'}" by (simp add: confined_def)
      with less show ?thesis by (auto simp: nth_append)
    qed
  qed
  moreover have "take n (h' @ [ob]) = take n h" using inv same by (simp add: confined_def)
  ultimately show ?case by simp
qed

lemma agent_keeps_engine:
  assumes "confined (length h) {c} h' \<and> take (length h) h' = h" and "agent {c} h' K h''"
  shows "\<exists>ext. h'' = h @ ext"
proof -
  from agent_confined [OF assms(2)] assms(1)
  have "confined (length h) K h''" and "take (length h) h'' = h" by simp_all
  then have "h'' = h @ drop (length h) h''"
    by (metis append_take_drop_id)
  then show ?thesis by blast
qed

lemma rows_of_item:
  "rows_of h rows = Some m \<Longrightarrow> i < length m
   \<Longrightarrow> length rows = length m
       \<and> (\<exists>r. rows ! i = Ref r \<and> lookup h r = Some (ListObj (m ! i)))"
proof (induction rows arbitrary: m i)
  case Nil
  then show ?case by simp
next
  case (Cons v rows)
  from Cons.prems(1) obtain r items m' where v: "v = Ref r"
    and r: "lookup h r = Some (ListObj items)" and m': "rows_of h rows = Some m'"
    and m: "m = items # m'"
    by (auto split: hval.splits option.splits obj.splits)
  show ?case
  proof (cases i)
    case 0
    have "length rows = length m'"
      using m' by (induction rows arbitrary: m') (auto split: hval.splits option.splits obj.splits)
    with 0 v r m show ?thesis by simp
  next
    case (Suc k)
    with Cons.prems(2) m have "k < length m'" by simp
    with Cons.IH [OF m'] Suc v m show ?thesis by simp
  qed
qed

lemma board_item_of:
  assumes "board_of h self = Some m" and "i < length m" and "j < length (m ! i)"
  shows "board_item h self i j = Some (m ! i ! j)"
proof -
  from assms(1) obtain sz l rows where self: "lookup h self = Some (BoardObj sz (Ref l))"
    and l: "lookup h l = Some (ListObj rows)" and rows: "rows_of h rows = Some m"
    by (auto simp: board_of_def matrix_of_def split: option.splits obj.splits hval.splits)
  from rows_of_item [OF rows assms(2)] obtain r where len: "length rows = length m"
    and r: "rows ! i = Ref r" "lookup h r = Some (ListObj (m ! i))"
    by blast
  with self l assms(2,3) show ?thesis
    by (simp add: board_item_def item_def)
qed

lemma create_copy_for_player_values:
  fixes h :: "'c heap"
  assumes "board_of h self = Some (map (map Enum) b)"
  shows "\<exists>h' c. create_copy_for_player val sz cells h self = Some (h', c)
    \<and> board_of h' c = Some (map (map (\<lambda>x. Num (val x))) b)"
proof -
  define news :: "'c hval list list" where "news = map (map (\<lambda>x. Num (val x))) b"
  define ext1 :: "'c heap" where
    "ext1 = map ListObj (map (map Enum) cells)
       @ [ListObj (map Ref [length h..<length h + length cells]),
          BoardObj (Num sz) (Ref (length h + length cells))]"
  define bc where "bc = Suc (length h + length cells)"
  define h1 where "h1 = h @ ext1"
  define refs :: "'c hval list" where "refs = map Ref [length h1..<length h1 + length news]"
  define h2 where "h2 = h1 @ map ListObj news"
  define B :: "'c obj" where "B = BoardObj (Num sz) (Ref (length h2))"
  have nb: "new_board_object sz cells h = (h1, bc)"
    by (simp add: new_board_object_eq h1_def ext1_def bc_def)
  have bc: "bc < length h1"
    by (simp add: h1_def ext1_def bc_def)
  from assms obtain s0 l rows where self: "lookup h self = Some (BoardObj s0 (Ref l))"
    and l: "lookup h l = Some (ListObj rows)"
    and rows: "rows_of h rows = Some (map (map Enum) b)"
    by (auto simp: board_of_def matrix_of_def split: option.splits obj.splits hval.splits)
  have conv: "list_all2 (\<lambda>items new. values_of val items = Some new) (map (map Enum) b) news"
    by (simp add: news_def list_all2_map1 list_all2_map2 values_of_Enum list_all2_same)
  have copy: "copy_rows (values_of val) h1 rows = Some (h2, refs)"
    using copy_rows_eq [OF rows conv, of ext1] by (simp add: h1_def h2_def refs_def)
  have self1: "lookup h1 self = Some (BoardObj s0 (Ref l))"
    unfolding h1_def using self by (rule lookup_mono)
  have l1: "lookup h1 l = Some (ListObj rows)"
    unfolding h1_def using l by (rule lookup_mono)
  have created: "create_copy_for_player val sz cells h self
    = Some ((h2 @ [ListObj refs])[bc := B], bc)"
    using nb self1 l1 copy by (simp add: create_copy_for_player_def alloc_def B_def)
  have shape: "(h2 @ [ListObj refs])[bc := B] = h1[bc := B] @ map ListObj news @ [ListObj refs]"
    using bc by (simp add: h2_def list_update_append)
  have c: "lookup ((h2 @ [ListObj refs])[bc := B]) bc = Some B"
    using bc by (simp add: lookup_def h2_def)
  have "bc \<noteq> length h2" using bc by (simp add: h2_def)
  then have l': "lookup ((h2 @ [ListObj refs])[bc := B]) (length h2) = Some (ListObj refs)"
    by (simp add: lookup_def)
  have "rows_of (h1[bc := B] @ map ListObj news @ [ListObj refs]) refs = Some news"
    using rows_of_fresh [of "h1[bc := B]" news "[ListObj refs]"] by (simp add: refs_def)
  then have "rows_of ((h2 @ [ListObj refs])[bc := B]) refs = Some news"
    by (simp only: shape)
  with c l' have "board_of ((h2 @ [ListObj refs])[bc := B]) bc = Some news"
    by (simp add: board_of_def matrix_of_def B_def)
  with created show ?thesis unfolding news_def by blast
qed

text \<open>
  C10. When the engine's board holds enumeration constants, \<open>create_copy_for_player\<close>
  returns, and the cell of the copy at every coordinate is the plain \<open>int\<close> that is the
  \<open>value\<close> of the engine's cell there: 0 for an empty cell, 1 and 2 for the two
  players.
\<close>

theorem snapshot_holds_values:
  "(board_of th te = Some (map (map Enum) tb) \<longrightarrow>
      (\<exists>h' c. t_create_copy_for_player th te = Some (h', c)
        \<and> (\<forall>i<length tb. \<forall>j<length (tb ! i).
              board_item h' c i j = Some (Num (tBoardCell_value (tb ! i ! j))))))
   \<and> (board_of rh re = Some (map (map Enum) rb) \<longrightarrow>
      (\<exists>h' c. r_create_copy_for_player rh re = Some (h', c)
        \<and> (\<forall>i<length rb. \<forall>j<length (rb ! i).
              board_item h' c i j = Some (Num (BoardCell_value (rb ! i ! j))))))
   \<and> tBoardCell_value tEMPTY = 0 \<and> tBoardCell_value tX = 1 \<and> tBoardCell_value tO = 2
   \<and> BoardCell_value EMPTY = 0 \<and> BoardCell_value BLACK = 1 \<and> BoardCell_value WHITE = 2"
proof (intro conjI impI)
  assume "board_of th te = Some (map (map Enum) tb)"
  then obtain h' c where "t_create_copy_for_player th te = Some (h', c)"
    and b: "board_of h' c = Some (map (map (\<lambda>x. Num (tBoardCell_value x))) tb)"
    unfolding t_create_copy_for_player_def
    using create_copy_for_player_values by blast
  moreover have "board_item h' c i j = Some (Num (tBoardCell_value (tb ! i ! j)))"
    if "i < length tb" and "j < length (tb ! i)" for i j
    using board_item_of [OF b, of i j] that by simp
  ultimately show "\<exists>h' c. t_create_copy_for_player th te = Some (h', c)
        \<and> (\<forall>i<length tb. \<forall>j<length (tb ! i).
              board_item h' c i j = Some (Num (tBoardCell_value (tb ! i ! j))))"
    by blast
next
  assume "board_of rh re = Some (map (map Enum) rb)"
  then obtain h' c where "r_create_copy_for_player rh re = Some (h', c)"
    and b: "board_of h' c = Some (map (map (\<lambda>x. Num (BoardCell_value x))) rb)"
    unfolding r_create_copy_for_player_def
    using create_copy_for_player_values by blast
  moreover have "board_item h' c i j = Some (Num (BoardCell_value (rb ! i ! j)))"
    if "i < length rb" and "j < length (rb ! i)" for i j
    using board_item_of [OF b, of i j] that by simp
  ultimately show "\<exists>h' c. r_create_copy_for_player rh re = Some (h', c)
        \<and> (\<forall>i<length rb. \<forall>j<length (rb ! i).
              board_item h' c i j = Some (Num (BoardCell_value (rb ! i ! j))))"
    by blast
qed simp_all

theorem snapshot_holds_values_witness:
  "board_of (fst (new_board_object tsize
        [[tX, tO, tEMPTY], [tEMPTY, tEMPTY, tEMPTY], [tEMPTY, tEMPTY, tEMPTY]] [])) 4
     = Some (map (map Enum) [[tX, tO, tEMPTY], [tEMPTY, tEMPTY, tEMPTY], [tEMPTY, tEMPTY, tEMPTY]])
   \<and> (\<exists>h' c. t_create_copy_for_player (fst (new_board_object tsize
          [[tX, tO, tEMPTY], [tEMPTY, tEMPTY, tEMPTY], [tEMPTY, tEMPTY, tEMPTY]] [])) 4
        = Some (h', c)
      \<and> board_item h' c 0 0 = Some (Num 1) \<and> board_item h' c 0 1 = Some (Num 2)
      \<and> board_item h' c 2 2 = Some (Num 0))
   \<and> board_of (fst (new_board_object rsize GameBoard [])) 9 = Some (map (map Enum) GameBoard)
   \<and> (\<exists>h' c. r_create_copy_for_player (fst (new_board_object rsize GameBoard [])) 9
        = Some (h', c)
      \<and> board_item h' c 3 3 = Some (Num 2) \<and> board_item h' c 3 4 = Some (Num 1))"
proof -
  let ?b = "[[tX, tO, tEMPTY], [tEMPTY, tEMPTY, tEMPTY], [tEMPTY, tEMPTY, tEMPTY]]"
  let ?th = "fst (new_board_object tsize ?b []) :: tBoardCell heap"
  let ?rh = "fst (new_board_object rsize GameBoard []) :: BoardCell heap"
  have t: "board_of ?th 4 = Some (map (map Enum) ?b)"
    by code_simp
  have r: "board_of ?rh 9 = Some (map (map Enum) GameBoard)"
    by code_simp
  have g: "length GameBoard = 8" "length (GameBoard ! 3) = 8"
    "GameBoard ! 3 ! 3 = WHITE" "GameBoard ! 3 ! 4 = BLACK"
    by code_simp+
  from snapshot_holds_values [of ?th 4 ?b ?rh 9 GameBoard] t r
  obtain th' tc rh' rc
    where "t_create_copy_for_player ?th 4 = Some (th', tc)"
      and tcells: "\<forall>i<length ?b. \<forall>j<length (?b ! i).
              board_item th' tc i j = Some (Num (tBoardCell_value (?b ! i ! j)))"
      and "r_create_copy_for_player ?rh 9 = Some (rh', rc)"
      and rcells: "\<forall>i<length GameBoard. \<forall>j<length (GameBoard ! i).
              board_item rh' rc i j = Some (Num (BoardCell_value (GameBoard ! i ! j)))"
    by blast
  moreover from tcells have "board_item th' tc 0 0 = Some (Num 1)"
    "board_item th' tc 0 1 = Some (Num 2)" "board_item th' tc 2 2 = Some (Num 0)"
    by (simp_all add: nth_Cons')
  moreover from rcells g have "board_item rh' rc 3 3 = Some (Num 2)"
    "board_item rh' rc 3 4 = Some (Num 1)"
    by simp_all
  ultimately show ?thesis using t r by blast
qed

text \<open>
  C9. The player is called with a reference to the copy and nothing else. Whatever it
  then reads, overwrites and creates, every object the store held before the copy was
  made is as it was: the cells of the engine's board in the two board games, the rounds
  of the engine's history in the numeric game.
\<close>

theorem agent_cannot_change_engine_state:
  "(board_of th te = Some tm \<and> t_create_copy_for_player th te = Some (th', tc)
      \<and> agent {tc} th' tK th'' \<longrightarrow>
      board_of th'' te = Some tm \<and> take (length th) th'' = th)
   \<and> (board_of rh re = Some rm \<and> r_create_copy_for_player rh re = Some (rh', rc)
      \<and> agent {rc} rh' rK rh'' \<longrightarrow>
      board_of rh'' re = Some rm \<and> take (length rh) rh'' = rh)
   \<and> (matrix_of kh ka = Some km \<and> deepcopy_history kh ka = Some (kh', kc)
      \<and> agent {kc} kh' kK kh'' \<longrightarrow>
      matrix_of kh'' ka = Some km \<and> take (length kh) kh'' = kh)"
proof (intro conjI impI)
  assume a: "board_of th te = Some tm \<and> t_create_copy_for_player th te = Some (th', tc)
      \<and> agent {tc} th' tK th''"
  then have "confined (length th) {tc} th' \<and> take (length th) th' = th"
    unfolding t_create_copy_for_player_def using create_copy_confined by blast
  with a obtain ext where ext: "th'' = th @ ext" using agent_keeps_engine by blast
  with a show "board_of th'' te = Some tm" by (simp add: board_of_append)
  from ext show "take (length th) th'' = th" by simp
next
  assume a: "board_of rh re = Some rm \<and> r_create_copy_for_player rh re = Some (rh', rc)
      \<and> agent {rc} rh' rK rh''"
  then have "confined (length rh) {rc} rh' \<and> take (length rh) rh' = rh"
    unfolding r_create_copy_for_player_def using create_copy_confined by blast
  with a obtain ext where ext: "rh'' = rh @ ext" using agent_keeps_engine by blast
  with a show "board_of rh'' re = Some rm" by (simp add: board_of_append)
  from ext show "take (length rh) rh'' = rh" by simp
next
  assume a: "matrix_of kh ka = Some km \<and> deepcopy_history kh ka = Some (kh', kc)
      \<and> agent {kc} kh' kK kh''"
  then have "confined (length kh) {kc} kh' \<and> take (length kh) kh' = kh"
    using deepcopy_history_confined by blast
  with a obtain ext where ext: "kh'' = kh @ ext" using agent_keeps_engine by blast
  with a show "matrix_of kh'' ka = Some km" by (simp add: matrix_of_append)
  from ext show "take (length kh) kh'' = kh" by simp
qed

theorem agent_cannot_change_engine_state_witness:
  "board_of (fst (new_board_object tsize tGameBoard [])) 4 = Some (map (map Enum) tGameBoard)
   \<and> (\<exists>h' K h''.
        t_create_copy_for_player (fst (new_board_object tsize tGameBoard [])) 4 = Some (h', 9)
        \<and> agent {9} h' K h''
        \<and> board_item h'' 9 0 0 = Some (Num 1)
        \<and> board_of h'' 4 = Some (map (map Enum) tGameBoard))
   \<and> board_of (fst (new_board_object rsize GameBoard [])) 9 = Some (map (map Enum) GameBoard)
   \<and> (\<exists>h' K h''.
        r_create_copy_for_player (fst (new_board_object rsize GameBoard [])) 9 = Some (h', 19)
        \<and> agent {19} h' K h''
        \<and> board_of h'' 19 = None
        \<and> board_of h'' 9 = Some (map (map Enum) GameBoard))
   \<and> matrix_of [ListObj [Num 1, Num 2], ListObj [Num 2, Num 2], ListObj [Ref 0, Ref 1]] 2
       = Some [[Num 1, Num 2], [Num 2, Num 2 :: unit hval]]
   \<and> (\<exists>h' K h''.
        deepcopy_history [ListObj [Num 1, Num 2], ListObj [Num 2, Num 2], ListObj [Ref 0, Ref 1]] 2
          = Some (h', 5)
        \<and> agent {5} h' K h''
        \<and> matrix_of h'' 5 = Some []
        \<and> matrix_of h'' 2 = Some [[Num 1, Num 2], [Num 2, Num 2 :: unit hval]])"
proof -
  let ?th = "fst (new_board_object tsize tGameBoard []) :: tBoardCell heap"
  let ?rh = "fst (new_board_object rsize GameBoard []) :: BoardCell heap"
  let ?kh = "[ListObj [Num 1, Num 2], ListObj [Num 2, Num 2], ListObj [Ref 0, Ref 1]] :: unit heap"
  let ?th' = "fst (the (t_create_copy_for_player ?th 4))"
  let ?rh' = "fst (the (r_create_copy_for_player ?rh 9))"
  let ?kh' = "fst (the (deepcopy_history ?kh 2))"
  have t: "board_of ?th 4 = Some (map (map Enum) tGameBoard)"
    by code_simp
  have tc: "t_create_copy_for_player ?th 4 = Some (?th', 9)"
    by code_simp
  have t9: "lookup ?th' 9 = Some (BoardObj (Num 3) (Ref 13))"
    and t13: "lookup ?th' 13 = Some (ListObj [Ref 10, Ref 11, Ref 12])"
    and tlen: "10 < length ?th'"
    by code_simp+
  have "agent {9} ?th' ({9} \<union> refs_of (BoardObj (Num 3) (Ref 13) :: tBoardCell obj)) ?th'"
    by (rule agent.reads [OF agent.nothing _ t9]) simp
  then have "agent {9} ?th' ({9} \<union> refs_of (BoardObj (Num 3) (Ref 13) :: tBoardCell obj)
      \<union> refs_of (ListObj [Ref 10, Ref 11, Ref 12] :: tBoardCell obj)) ?th'"
    by (rule agent.reads [OF _ _ t13]) (simp add: refs_of_def)
  then have ta: "agent {9} ?th' ({9} \<union> refs_of (BoardObj (Num 3) (Ref 13) :: tBoardCell obj)
      \<union> refs_of (ListObj [Ref 10, Ref 11, Ref 12] :: tBoardCell obj)) (?th'[10 := ListObj [Num 1, Num 1, Num 1]])"
    by (rule agent.writes [OF _ _ tlen]) (simp_all add: refs_of_def)
  have tw: "board_item (?th'[10 := ListObj [Num 1, Num 1, Num 1]]) 9 0 0 = Some (Num 1)"
    by code_simp
  have r: "board_of ?rh 9 = Some (map (map Enum) GameBoard)"
    by code_simp
  have rc: "r_create_copy_for_player ?rh 9 = Some (?rh', 19)"
    by code_simp
  have rlen: "19 < length ?rh'"
    by code_simp
  have ra: "agent {19} ?rh' {19} (?rh'[19 := BoardObj (Num 0) (Num 0)])"
    by (rule agent.writes [OF agent.nothing _ rlen]) (simp_all add: refs_of_def)
  have rw: "board_of (?rh'[19 := BoardObj (Num 0) (Num 0)]) 19 = None"
    by code_simp
  have k: "matrix_of ?kh 2 = Some [[Num 1, Num 2], [Num 2, Num 2]]"
    by code_simp
  have kc: "deepcopy_history ?kh 2 = Some (?kh', 5)"
    by code_simp
  have klen: "5 < length ?kh'"
    by code_simp
  have ka: "agent {5} ?kh' {5} (?kh'[5 := ListObj []])"
    by (rule agent.writes [OF agent.nothing _ klen]) (simp_all add: refs_of_def)
  have kw: "matrix_of (?kh'[5 := ListObj []]) 5 = Some []"
    by code_simp
  from agent_cannot_change_engine_state [of ?th 4 "map (map Enum) tGameBoard" ?th' 9
      "{9} \<union> refs_of (BoardObj (Num 3) (Ref 13) :: tBoardCell obj) \<union> refs_of (ListObj [Ref 10, Ref 11, Ref 12] :: tBoardCell obj)"
      "?th'[10 := ListObj [Num 1, Num 1, Num 1]]"
      ?rh 9 "map (map Enum) GameBoard" ?rh' 19 "{19}" "?rh'[19 := BoardObj (Num 0) (Num 0)]"
      ?kh 2 "[[Num 1, Num 2], [Num 2, Num 2]]" ?kh' 5 "{5}" "?kh'[5 := ListObj []]"]
    t tc ta r rc ra k kc ka
  have "board_of (?th'[10 := ListObj [Num 1, Num 1, Num 1]]) 4 = Some (map (map Enum) tGameBoard)"
    and "board_of (?rh'[19 := BoardObj (Num 0) (Num 0)]) 9 = Some (map (map Enum) GameBoard)"
    and "matrix_of (?kh'[5 := ListObj []]) 2 = Some [[Num 1, Num 2], [Num 2, Num 2]]"
    by simp_all
  with t tc ta tw r rc ra rw k kc ka kw show ?thesis by blast
qed

end
